theory Spec2Isabelle
  imports Main
begin

section \<open>Strings\<close>

text \<open>
  A JavaScript string is modelled as a \<^typ>\<open>string\<close>. The model is exact on ASCII
  text, one \<^typ>\<open>char\<close> per character; \<open>toLowerCase\<close> maps the letters \<open>A\<close> to \<open>Z\<close>
  and leaves every other character alone.
\<close>

definition lower_char :: "char \<Rightarrow> char" where
  "lower_char c =
     (case map_of (zip ''ABCDEFGHIJKLMNOPQRSTUVWXYZ'' ''abcdefghijklmnopqrstuvwxyz'') c of
        Some l \<Rightarrow> l
      | None \<Rightarrow> c)"

definition toLowerCase :: "string \<Rightarrow> string" where
  "toLowerCase s = map lower_char s"

definition startsWith :: "string \<Rightarrow> string \<Rightarrow> bool" where
  "startsWith s p = (take (length p) s = p)"

text \<open>\<open>s.includes(k)\<close>: \<open>k\<close> occurs in \<open>s\<close> as a contiguous substring.\<close>

fun str_includes :: "string \<Rightarrow> string \<Rightarrow> bool" where
  "str_includes [] k = (k = [])"
| "str_includes (c # s) k = (startsWith (c # s) k \<or> str_includes s k)"

definition endsWith :: "string \<Rightarrow> string \<Rightarrow> bool" where
  "endsWith s p = (length p \<le> length s \<and> drop (length s - length p) s = p)"

definition upper_char :: "char \<Rightarrow> char" where
  "upper_char c =
     (case map_of (zip ''abcdefghijklmnopqrstuvwxyz'' ''ABCDEFGHIJKLMNOPQRSTUVWXYZ'') c of
        Some u \<Rightarrow> u
      | None \<Rightarrow> c)"

text \<open>\<open>parts.join(sep)\<close>.\<close>

fun str_join :: "string \<Rightarrow> string list \<Rightarrow> string" where
  "str_join sep [] = []"
| "str_join sep [p] = p"
| "str_join sep (p # q # ps) = p @ sep @ str_join sep (q # ps)"

text \<open>
  \<open>s.split(sep)\<close> for a separator that is not empty (the source splits on \<open>"/"\<close>
  and on \<open>"__"\<close> only): \<open>cur\<close> is the part read so far.
\<close>

function split_from :: "string \<Rightarrow> string \<Rightarrow> string \<Rightarrow> string list" where
  "split_from sep cur [] = [cur]"
| "split_from sep cur (c # s) =
     (if sep \<noteq> [] \<and> startsWith (c # s) sep
      then cur # split_from sep [] (drop (length sep) (c # s))
      else split_from sep (cur @ [c]) s)"
  by pat_completeness auto
termination
  by (relation "measure (\<lambda>(sep, cur, s). length s)") (auto simp: neq_Nil_conv)

definition str_split :: "string \<Rightarrow> string \<Rightarrow> string list" where
  "str_split sep s = split_from sep [] s"

text \<open>\<open>s.trim()\<close>, on the ASCII white space characters.\<close>

definition is_space :: "char \<Rightarrow> bool" where
  "is_space c = (c \<in> set [CHR 0x20, CHR 0x09, CHR 0x0A, CHR 0x0B, CHR 0x0C, CHR 0x0D])"

definition trim :: "string \<Rightarrow> string" where
  "trim s = rev (dropWhile is_space (rev (dropWhile is_space s)))"

text \<open>JavaScript truthiness of a \<open>string | null | undefined\<close> value.\<close>

fun truthy :: "string option \<Rightarrow> bool" where
  "truthy None = False"
| "truthy (Some s) = (s \<noteq> [])"

section \<open>Configuration and collaborators\<close>

text \<open>
  The modules \<open>./config\<close> and \<open>./security\<close> and some helpers imported from
  \<open>./formatting\<close> are not part of the sources at hand. Their constants and functions
  are the fields of \<open>env\<close>, and every result below holds for all their values.
\<close>

record env =
  THINKING_DEEP_KEYWORDS :: "string list"
  THINKING_KEYWORDS :: "string list"
  TEMP_PATHS :: "string list"
  WORKING_DIR :: string
  STREAMING_THROTTLE_MS :: int
  checkCommandSafety :: "string \<Rightarrow> bool \<times> string"
  isPathAllowed :: "string \<Rightarrow> bool"
  extractToolResultText :: "string \<Rightarrow> string"
  looksLikeError :: "string \<Rightarrow> bool"
  formatToolErrorStatus :: "string \<Rightarrow> string"
  summarizeToolOutput :: "string \<Rightarrow> string"
  checkPendingAskUserRequests :: "nat \<Rightarrow> bool"
  ask_user_ctx :: bool
  Date_now :: "nat \<Rightarrow> int"
  toLocaleDateString :: "int \<Rightarrow> string"

text \<open>
  \<open>checkPendingAskUserRequests e n\<close> is what the \<open>n\<close>-th call of the collaborator
  answers during one \<open>sendMessageStreaming\<close>, \<open>Date_now e n\<close> what the \<open>n\<close>-th
  reading of the clock gives, and \<open>ask_user_ctx\<close> says that the call was given both a
  \<open>ctx\<close> and a \<open>chatId\<close>.
\<close>

section \<open>Thinking budget (\<open>getThinkingLevel\<close>)\<close>

text \<open>\<open>session.ts\<close>, lines 41 to 56.\<close>

definition getThinkingLevel :: "env \<Rightarrow> string \<Rightarrow> nat" where
  "getThinkingLevel e message =
     (let msgLower = toLowerCase message in
      if list_ex (\<lambda>k. str_includes msgLower k) (THINKING_DEEP_KEYWORDS e) then 50000
      else if list_ex (\<lambda>k. str_includes msgLower k) (THINKING_KEYWORDS e) then 10000
      else 0)"

section \<open>The session index (\<open>saveSession\<close>)\<close>

type_synonym date = int

record saved_session =
  session_id :: string
  saved_at :: date
  working_dir :: string
  title :: string

definition MAX_SESSIONS :: nat where
  "MAX_SESSIONS = 5"

text \<open>\<open>Array.prototype.findIndex\<close>: the first index whose element satisfies the
  predicate; \<open>None\<close> stands for \<open>-1\<close>.\<close>

fun findIndex :: "('a \<Rightarrow> bool) \<Rightarrow> 'a list \<Rightarrow> nat option" where
  "findIndex P [] = None"
| "findIndex P (x # xs) = (if P x then Some 0 else map_option Suc (findIndex P xs))"

text \<open>
  The list part of \<open>saveSession\<close> (lines 611 to 623): the loaded \<open>history.sessions\<close>
  with the new entry written over the first entry of the same id, or put in front when
  there is none, and then cut to \<open>MAX_SESSIONS\<close> entries.
\<close>

definition upsert :: "saved_session \<Rightarrow> saved_session list \<Rightarrow> saved_session list" where
  "upsert newSession sessions =
     take MAX_SESSIONS
       (case findIndex (\<lambda>s. session_id s = session_id newSession) sessions of
          Some existingIndex \<Rightarrow> sessions[existingIndex := newSession]
        | None \<Rightarrow> newSession # sessions)"

text \<open>Records saved one after the other, the first of the list first, into an empty index.\<close>

definition insert_all :: "saved_session list \<Rightarrow> saved_session list" where
  "insert_all rs = foldl (\<lambda>sessions r. upsert r sessions) [] rs"

section \<open>Tool status formatting (\<open>formatting.ts\<close>)\<close>

text \<open>
  \<open>formatting.ts\<close>, lines 233 to 441. The symbols of the source that are outside
  ASCII are written as the bytes of their UTF-8 encoding; the functions below only
  concatenate them and search for them.
\<close>

definition e_read :: string where "e_read = [CHR 0xF0, CHR 0x9F, CHR 0x93, CHR 0x96]"
definition e_write :: string where "e_write = [CHR 0xF0, CHR 0x9F, CHR 0x93, CHR 0x9D]"
definition e_edit :: string where
  "e_edit = [CHR 0xE2, CHR 0x9C, CHR 0x8F, CHR 0xEF, CHR 0xB8, CHR 0x8F]"
definition e_bash :: string where
  "e_bash = [CHR 0xE2, CHR 0x96, CHR 0xB6, CHR 0xEF, CHR 0xB8, CHR 0x8F]"
definition e_glob :: string where "e_glob = [CHR 0xF0, CHR 0x9F, CHR 0x94, CHR 0x8D]"
definition e_grep :: string where "e_grep = [CHR 0xF0, CHR 0x9F, CHR 0x94, CHR 0x8E]"
definition e_web :: string where "e_web = [CHR 0xF0, CHR 0x9F, CHR 0x8C, CHR 0x90]"
definition e_task :: string where "e_task = [CHR 0xF0, CHR 0x9F, CHR 0x8E, CHR 0xAF]"
definition e_todo :: string where "e_todo = [CHR 0xF0, CHR 0x9F, CHR 0x93, CHR 0x8B]"
definition e_mcp :: string where "e_mcp = [CHR 0xF0, CHR 0x9F, CHR 0x94, CHR 0xA7]"
definition e_eyes :: string where "e_eyes = [CHR 0xF0, CHR 0x9F, CHR 0x91, CHR 0x80]"
definition e_skill :: string where "e_skill = [CHR 0xF0, CHR 0x9F, CHR 0x92, CHR 0xAD]"
definition e_check :: string where "e_check = [CHR 0xE2, CHR 0x9C, CHR 0x85]"
definition e_clock :: string where "e_clock = [CHR 0xE2, CHR 0x8F, CHR 0xB1]"

definition escapeHtml :: "string \<Rightarrow> string" where
  "escapeHtml t =
     concat (map (\<lambda>c. if c = CHR ''&'' then ''&amp;''
                      else if c = CHR ''<'' then ''&lt;''
                      else if c = CHR ''>'' then ''&gt;''
                      else if c = CHR 0x22 then ''&quot;''
                      else [c]) t)"

definition shortenPath :: "string \<Rightarrow> string" where
  "shortenPath path =
     (if path = [] then ''file''
      else let parts = str_split ''/'' path in
        if length parts \<ge> 2 then str_join ''/'' (drop (length parts - 2) parts)
        else (case rev parts of
                p # _ \<Rightarrow> if p \<noteq> [] then p else path
              | [] \<Rightarrow> path))"

definition truncate :: "string \<Rightarrow> nat \<Rightarrow> string" where
  "truncate t maxLen =
     (if t = [] then []
      else let cleaned = trim (map (\<lambda>c. if c = CHR 0x0A then CHR '' '' else c) t) in
        if length cleaned \<le> maxLen then cleaned
        else take maxLen cleaned @ ''...'')"

definition code :: "string \<Rightarrow> string" where
  "code t = ''<code>'' @ escapeHtml t @ ''</code>''"

text \<open>
  A tool's input is a JSON object; the model keeps its string fields. \<open>field_or i k d\<close>
  is \<open>String(i.k || d)\<close>.
\<close>

type_synonym tool_input = "string \<rightharpoonup> string"

definition field_or :: "tool_input \<Rightarrow> string \<Rightarrow> string \<Rightarrow> string" where
  "field_or toolInput k d =
     (case toolInput k of Some v \<Rightarrow> if v \<noteq> [] then v else d | None \<Rightarrow> d)"

definition emojiMap :: "(string \<times> string) list" where
  "emojiMap =
     [(''Read'', e_read), (''Write'', e_write), (''Edit'', e_edit), (''Bash'', e_bash),
      (''Glob'', e_glob), (''Grep'', e_grep), (''WebSearch'', e_glob),
      (''WebFetch'', e_web), (''Task'', e_task), (''TodoWrite'', e_todo),
      (''mcp__'', e_mcp)]"

definition imageExtensions :: "string list" where
  "imageExtensions =
     [''.jpg'', ''.jpeg'', ''.png'', ''.gif'', ''.webp'', ''.bmp'', ''.svg'', ''.ico'']"

definition capitalize :: "string \<Rightarrow> string" where
  "capitalize action = (case action of [] \<Rightarrow> [] | c # cs \<Rightarrow> upper_char c # cs)"

text \<open>The branch of \<open>formatToolStatus\<close> for a tool whose name starts with \<open>mcp__\<close>.\<close>

definition formatMcpStatus :: "string \<Rightarrow> tool_input \<Rightarrow> string" where
  "formatMcpStatus toolName toolInput =
     (let parts = str_split ''__'' toolName in
      if length parts \<ge> 3 then
        let server = parts ! 1;
            action0 = parts ! 2;
            action1 = (if startsWith action0 (server @ ''_'')
                       then drop (length server + 1) action0 else action0);
            action = map (\<lambda>c. if c = CHR ''_'' then CHR '' '' else c) action1;
            summary =
              field_or toolInput ''name''
               (field_or toolInput ''title''
                 (field_or toolInput ''query''
                   (field_or toolInput ''description''
                     (field_or toolInput ''content''
                       (field_or toolInput ''text''
                         (field_or toolInput ''id'' []))))));
            label = capitalize action
        in if summary \<noteq> [] then
             let detail0 = escapeHtml (truncate summary 40);
                 date = field_or toolInput ''start_date'' (field_or toolInput ''date'' []);
                 detail = (if date \<noteq> []
                           then detail0 @ '' ('' @ escapeHtml (take 10 date) @ '')''
                           else detail0)
             in e_mcp @ '' '' @ label @ '': '' @ detail
           else e_mcp @ '' '' @ label
      else e_mcp @ '' '' @ escapeHtml toolName)"

definition formatToolStatus :: "string \<Rightarrow> tool_input \<Rightarrow> string" where
  "formatToolStatus toolName toolInput =
     (let emoji = (case find (\<lambda>(key, val). str_includes toolName key) emojiMap of
                     Some (key, val) \<Rightarrow> val
                   | None \<Rightarrow> e_mcp)
      in
      if toolName = ''Read'' then
        let filePath = field_or toolInput ''file_path'' ''file'';
            shortPath = shortenPath filePath
        in if list_ex (\<lambda>ext. endsWith (toLowerCase filePath) ext) imageExtensions
           then e_eyes @ '' Viewing''
           else emoji @ '' Reading '' @ code shortPath
      else if toolName = ''Write'' then
        emoji @ '' Writing '' @ code (shortenPath (field_or toolInput ''file_path'' ''file''))
      else if toolName = ''Edit'' then
        emoji @ '' Editing '' @ code (shortenPath (field_or toolInput ''file_path'' ''file''))
      else if toolName = ''Bash'' then
        let cmd = field_or toolInput ''command'' [];
            desc = field_or toolInput ''description'' []
        in if desc \<noteq> [] then emoji @ '' '' @ escapeHtml desc
           else emoji @ '' '' @ code (truncate cmd 50)
      else if toolName = ''Grep'' then
        let pattern = field_or toolInput ''pattern'' [];
            path = field_or toolInput ''path'' []
        in if path \<noteq> []
           then emoji @ '' Searching '' @ code (truncate pattern 30) @ '' in '' @
                code (shortenPath path)
           else emoji @ '' Searching '' @ code (truncate pattern 40)
      else if toolName = ''Glob'' then
        emoji @ '' Finding '' @ code (truncate (field_or toolInput ''pattern'' []) 50)
      else if toolName = ''WebSearch'' then
        emoji @ '' Searching: '' @ escapeHtml (truncate (field_or toolInput ''query'' []) 50)
      else if toolName = ''WebFetch'' then
        emoji @ '' Fetching '' @ code (truncate (field_or toolInput ''url'' []) 50)
      else if toolName = ''Task'' then
        let desc = field_or toolInput ''description'' []
        in if desc \<noteq> [] then emoji @ '' Agent: '' @ escapeHtml desc
           else emoji @ '' Running agent...''
      else if toolName = ''Skill'' then
        let skillName = field_or toolInput ''skill'' []
        in if skillName \<noteq> [] then e_skill @ '' Using skill: '' @ escapeHtml skillName
           else e_skill @ '' Using skill...''
      else if startsWith toolName ''mcp__'' then formatMcpStatus toolName toolInput
      else emoji @ '' '' @ escapeHtml toolName)"

text \<open>
  \<open>toolStatus.replace(pattern, replacement)\<close> for a pattern without a \<open>g\<close> flag: the
  leftmost match is replaced. \<open>alts\<close> lists the strings the pattern matches, the one
  the regular expression tries first in front; \<open>None\<close> says that the pattern matches
  nowhere (\<open>pattern.test\<close> is false).
\<close>

fun replace_first :: "string list \<Rightarrow> string \<Rightarrow> string \<Rightarrow> string option" where
  "replace_first alts replacement [] =
     (if [] \<in> set alts then Some replacement else None)"
| "replace_first alts replacement (c # s) =
     (case find (\<lambda>a. startsWith (c # s) a) alts of
        Some a \<Rightarrow> Some (replacement @ drop (length a) (c # s))
      | None \<Rightarrow> map_option (\<lambda>t. c # t) (replace_first alts replacement s))"

definition replacements :: "(string list \<times> string) list" where
  "replacements =
     [([e_web @ '' Fetching ''], e_check @ '' Fetched ''),
      ([e_glob @ '' Searching: '', e_glob @ '' Searching ''], e_check @ '' Searched ''),
      ([e_grep @ '' Searching ''], e_check @ '' Searched ''),
      ([e_read @ '' Reading ''], e_check @ '' Read ''),
      ([e_write @ '' Writing ''], e_check @ '' Wrote ''),
      ([e_edit @ '' Editing ''], e_check @ '' Edited ''),
      ([e_bash @ '' ''], e_check @ '' Ran ''),
      ([e_task @ '' Agent: ''], e_check @ '' Agent: ''),
      ([e_mcp @ '' ''], e_check @ '' ''),
      ([e_eyes @ '' Viewing''], e_check @ '' Viewed''),
      ([e_glob @ '' Finding ''], e_check @ '' Found '')]"

fun first_replacement :: "(string list \<times> string) list \<Rightarrow> string \<Rightarrow> string option" where
  "first_replacement [] toolStatus = None"
| "first_replacement ((alts, replacement) # rest) toolStatus =
     (case replace_first alts replacement toolStatus of
        Some t \<Rightarrow> Some t
      | None \<Rightarrow> first_replacement rest toolStatus)"

definition formatToolDoneStatus :: "string \<Rightarrow> string" where
  "formatToolDoneStatus toolStatus =
     (case first_replacement replacements toolStatus of
        Some t \<Rightarrow> t
      | None \<Rightarrow> e_check @ '' '' @ toolStatus)"

section \<open>The session (\<open>ClaudeSession\<close>)\<close>

record token_usage =
  input_tokens :: nat
  output_tokens :: nat

text \<open>
  The fields of the class. \<open>abortController\<close> is \<open>None\<close> for \<open>null\<close> and otherwise
  holds whether the controller's signal has been aborted.
\<close>

record session =
  sessionId :: "string option"
  lastActivity :: "date option"
  queryStarted :: "date option"
  currentTool :: "string option"
  lastTool :: "string option"
  lastError :: "string option"
  lastErrorTime :: "date option"
  lastUsage :: "token_usage option"
  lastMessage :: "string option"
  conversationTitle :: "string option"
  abortController :: "bool option"
  isQueryRunning :: bool
  stopRequested :: bool
  isProcessing :: bool
  wasInterruptedByNewMessage :: bool

definition new_session :: session where
  "new_session =
     \<lparr> sessionId = None, lastActivity = None, queryStarted = None, currentTool = None,
       lastTool = None, lastError = None, lastErrorTime = None, lastUsage = None,
       lastMessage = None, conversationTitle = None, abortController = None,
       isQueryRunning = False, stopRequested = False, isProcessing = False,
       wasInterruptedByNewMessage = False \<rparr>"

definition isActive :: "session \<Rightarrow> bool" where
  "isActive s = (sessionId s \<noteq> None)"

definition isRunning :: "session \<Rightarrow> bool" where
  "isRunning s = (isQueryRunning s \<or> isProcessing s)"

definition consumeInterruptFlag :: "session \<Rightarrow> bool \<times> session" where
  "consumeInterruptFlag s =
     (let was = wasInterruptedByNewMessage s;
          s1 = s\<lparr>wasInterruptedByNewMessage := False\<rparr>
      in (was, if was then s1\<lparr>stopRequested := False\<rparr> else s1))"

definition markInterrupt :: "session \<Rightarrow> session" where
  "markInterrupt s = s\<lparr>wasInterruptedByNewMessage := True\<rparr>"

definition clearStopRequested :: "session \<Rightarrow> session" where
  "clearStopRequested s = s\<lparr>stopRequested := False\<rparr>"

text \<open>\<open>startProcessing\<close> and the cleanup function it returns.\<close>

definition startProcessing :: "session \<Rightarrow> session" where
  "startProcessing s = s\<lparr>isProcessing := True\<rparr>"

definition stopProcessing :: "session \<Rightarrow> session" where
  "stopProcessing s = s\<lparr>isProcessing := False\<rparr>"

text \<open>\<open>stop\<close> (lines 148 to 165) returns \<open>"stopped"\<close>, \<open>"pending"\<close> or \<open>false\<close>.\<close>

datatype stop_result = Stopped | Pending | NothingRunning

definition stop :: "session \<Rightarrow> stop_result \<times> session" where
  "stop s =
     (if isQueryRunning s \<and> abortController s \<noteq> None
      then (Stopped, s\<lparr>stopRequested := True, abortController := Some True\<rparr>)
      else if isProcessing s then (Pending, s\<lparr>stopRequested := True\<rparr>)
      else (NothingRunning, s))"

section \<open>Streamed events and status updates\<close>

text \<open>
  A content block of a message. A tool result carries the identifier of its tool use,
  its \<open>is_error\<close> flag (absent is false) and its content, which only the collaborators
  read. \<open>OtherBlock\<close> holds the type of a block of any other type.
\<close>

datatype block =
    ThinkingBlock string
  | ToolUseBlock string tool_input "string option"
  | TextBlock string
  | ToolResultBlock "string option" bool string
  | OtherBlock string

datatype event_body =
    Assistant "block list"
  | User "block list option"
  | Result "token_usage option"
  | OtherEvent string

datatype event = Event (ev_session_id: "string option") (ev_body: event_body)

text \<open>
  What reaches the event loop of one query, in order: an event of the stream, a call
  of \<open>stop\<close> by another handler, or the inactivity timer firing. Both of the latter
  run while the loop waits, and their effect is read by the loop at its next event or
  when the stream ends; the stream ends normally or raises (the string is
  \<open>String(error)\<close>).
\<close>

datatype item = Ev event | StopCall | TimerFires

datatype ending = Ends | Throws string

text \<open>
  One call of the status callback: its arguments, and whether the call is awaited or
  sent off with a \<open>catch\<close> that only logs. The callback itself is a collaborator and is
  taken to resolve.
\<close>

datatype status_kind = Thinking | Tool | ToolDone | Text | SegmentEnd | Done

datatype dispatch = Awaited | FireAndForget

record emission =
  kind :: status_kind
  payload :: string
  segmentId :: "nat option"
  toolId :: "string option"
  dispatch :: dispatch

text \<open>
  The state of one call of \<open>sendMessageStreaming\<close>: the session, the session file,
  the local variables of the call, the calls of the status callback so far, and the
  numbers of clock readings and of \<open>checkPendingAskUserRequests\<close> calls so far.
\<close>

record query_state =
  sess :: session
  history :: "saved_session list"
  responseParts :: "string list"
  currentSegmentId :: nat
  currentSegmentText :: string
  lastTextUpdate :: int
  queryCompleted :: bool
  askUserTriggered :: bool
  pendingTools :: "string \<rightharpoonup> string"
  timedOut :: bool
  emitted :: "emission list"
  clock_reads :: nat
  ask_calls :: nat

definition statusCallback ::
  "status_kind \<Rightarrow> string \<Rightarrow> nat option \<Rightarrow> string option \<Rightarrow> dispatch \<Rightarrow>
   query_state \<Rightarrow> query_state" where
  "statusCallback k p seg tid d r =
     r\<lparr>emitted := emitted r @
       [\<lparr>kind = k, payload = p, segmentId = seg, toolId = tid, dispatch = d\<rparr>]\<rparr>"

text \<open>\<open>new Date()\<close> and \<open>Date.now()\<close>: the next reading of the clock.\<close>

definition read_clock :: "env \<Rightarrow> query_state \<Rightarrow> int \<times> query_state" where
  "read_clock e r = (Date_now e (clock_reads r), r\<lparr>clock_reads := Suc (clock_reads r)\<rparr>)"

text \<open>
  \<open>saveSession\<close> (lines 596 to 631); the session file is the field \<open>history\<close>, and
  reading and writing it are taken to succeed.
\<close>

definition saveSession :: "env \<Rightarrow> query_state \<Rightarrow> query_state" where
  "saveSession e r =
     (case sessionId (sess r) of
        None \<Rightarrow> r
      | Some sid \<Rightarrow>
          if sid = [] then r
          else let (now, r1) = read_clock e r;
                   newSession =
                     \<lparr> session_id = sid, saved_at = now, working_dir = WORKING_DIR e,
                       title = (case conversationTitle (sess r) of
                                  Some t \<Rightarrow> if t \<noteq> [] then t else ''Sessione senza titolo''
                                | None \<Rightarrow> ''Sessione senza titolo'') \<rparr>
               in r1\<lparr>history := upsert newSession (history r1)\<rparr>)"

section \<open>Event reduction (the loop of \<open>sendMessageStreaming\<close>)\<close>

text \<open>
  What one step of the loop leads to: the loop goes on, is left by \<open>break\<close>, or an
  error is raised (the string is \<open>String(error)\<close>).
\<close>

datatype outcome = Continue query_state | Exit query_state | Thrown query_state string

fun out_state :: "outcome \<Rightarrow> query_state" where
  "out_state (Continue r) = r"
| "out_state (Exit r) = r"
| "out_state (Thrown r err) = r"

text \<open>A thinking block (lines 329 to 337).\<close>

definition process_thinking :: "query_state \<Rightarrow> string \<Rightarrow> query_state" where
  "process_thinking r thinkingText =
     (if thinkingText \<noteq> [] then statusCallback Thinking thinkingText None None FireAndForget r
      else r)"

text \<open>
  The two safety checks of a tool use (lines 345 to 353 and 356 to 373): the reason or
  the path it is blocked for.
\<close>

definition unsafe_command :: "env \<Rightarrow> string \<Rightarrow> tool_input \<Rightarrow> string option" where
  "unsafe_command e toolName toolInput =
     (if toolName = ''Bash'' then
        let command = field_or toolInput ''command'' [];
            (isSafe, reason) = checkCommandSafety e command
        in if \<not> isSafe then Some reason else None
      else None)"

definition isTmpRead :: "env \<Rightarrow> string \<Rightarrow> string \<Rightarrow> bool" where
  "isTmpRead e toolName filePath =
     (toolName = ''Read'' \<and>
      (list_ex (\<lambda>p. startsWith filePath p) (TEMP_PATHS e) \<or> str_includes filePath ''/.claude/''))"

definition denied_path :: "env \<Rightarrow> string \<Rightarrow> tool_input \<Rightarrow> string option" where
  "denied_path e toolName toolInput =
     (if toolName \<in> set [''Read'', ''Write'', ''Edit''] then
        let filePath = field_or toolInput ''file_path'' []
        in if filePath \<noteq> [] \<and> \<not> isTmpRead e toolName filePath \<and> \<not> isPathAllowed e filePath
           then Some filePath else None
      else None)"

text \<open>The open text segment is closed when a tool starts (lines 376 to 384).\<close>

definition close_segment :: "query_state \<Rightarrow> query_state" where
  "close_segment r =
     (if currentSegmentText r \<noteq> [] then
        (statusCallback SegmentEnd (currentSegmentText r) (Some (currentSegmentId r)) None
           FireAndForget r)
          \<lparr>currentSegmentId := currentSegmentId r + 1, currentSegmentText := []\<rparr>
      else r)"

text \<open>The tool is formatted, recorded as pending and shown (lines 387 to 407).\<close>

definition show_tool ::
  "query_state \<Rightarrow> string \<Rightarrow> tool_input \<Rightarrow> string option \<Rightarrow> query_state" where
  "show_tool r toolName toolInput toolUseId =
     (let toolDisplay = formatToolStatus toolName toolInput;
          r1 = r\<lparr>sess := (sess r)\<lparr>currentTool := Some toolDisplay, lastTool := Some toolDisplay\<rparr>\<rparr>;
          r2 = (case toolUseId of
                  Some i \<Rightarrow>
                    if i \<noteq> [] then r1\<lparr>pendingTools := (pendingTools r1)(i \<mapsto> toolDisplay)\<rparr>
                    else r1
                | None \<Rightarrow> r1)
      in if \<not> startsWith toolName ''mcp__ask-user''
         then statusCallback Tool toolDisplay None toolUseId FireAndForget r2
         else (case toolUseId of
                 Some i \<Rightarrow>
                   if i \<noteq> [] then r2\<lparr>pendingTools := (pendingTools r2)(i := None)\<rparr> else r2
               | None \<Rightarrow> r2))"

text \<open>
  The retry loop after an ask-user tool (lines 410 to 428): at most \<open>n\<close> more
  attempts.
\<close>

fun ask_attempts :: "env \<Rightarrow> nat \<Rightarrow> query_state \<Rightarrow> query_state" where
  "ask_attempts e 0 r = r"
| "ask_attempts e (Suc n) r =
     (let buttonsSent = checkPendingAskUserRequests e (ask_calls r);
          r1 = r\<lparr>ask_calls := Suc (ask_calls r)\<rparr>
      in if buttonsSent then r1\<lparr>askUserTriggered := True\<rparr> else ask_attempts e n r1)"

definition check_ask_user :: "env \<Rightarrow> string \<Rightarrow> query_state \<Rightarrow> query_state" where
  "check_ask_user e toolName r =
     (if startsWith toolName ''mcp__ask-user'' \<and> ask_user_ctx e
      then ask_attempts e (Suc (Suc (Suc 0))) r else r)"

text \<open>
  Both checks in the order of the source: for a blocked tool use, the status text that
  is shown and the error that is raised.
\<close>

definition safety_check :: "env \<Rightarrow> string \<Rightarrow> tool_input \<Rightarrow> (string \<times> string) option" where
  "safety_check e toolName toolInput =
     (case unsafe_command e toolName toolInput of
        Some reason \<Rightarrow>
          Some (''BLOCKED: '' @ reason, ''Error: Unsafe command blocked: '' @ reason)
      | None \<Rightarrow>
          (case denied_path e toolName toolInput of
             Some filePath \<Rightarrow>
               Some (''Access denied: '' @ filePath, ''Error: File access blocked: '' @ filePath)
           | None \<Rightarrow> None))"

definition process_tool_use ::
  "env \<Rightarrow> query_state \<Rightarrow> string \<Rightarrow> tool_input \<Rightarrow> string option \<Rightarrow> outcome" where
  "process_tool_use e r toolName toolInput toolUseId =
     (case safety_check e toolName toolInput of
        Some (status, err) \<Rightarrow> Thrown (statusCallback Tool status None None Awaited r) err
      | None \<Rightarrow>
          Continue (check_ask_user e toolName
            (show_tool (close_segment r) toolName toolInput toolUseId)))"

text \<open>A text block (lines 441 to 458).\<close>

definition process_text :: "env \<Rightarrow> query_state \<Rightarrow> string \<Rightarrow> query_state" where
  "process_text e r t =
     (let r1 = r\<lparr>responseParts := responseParts r @ [t],
                 currentSegmentText := currentSegmentText r @ t\<rparr>;
          (now, r2) = read_clock e r1
      in if now - lastTextUpdate r2 > STREAMING_THROTTLE_MS e \<and>
            length (currentSegmentText r2) > 20
         then (statusCallback Text (currentSegmentText r2) (Some (currentSegmentId r2)) None
                 Awaited r2)\<lparr>lastTextUpdate := now\<rparr>
         else r2)"

text \<open>One content block of an assistant message.\<close>

fun process_block :: "env \<Rightarrow> query_state \<Rightarrow> block \<Rightarrow> outcome" where
  "process_block e r (ThinkingBlock thinkingText) = Continue (process_thinking r thinkingText)"
| "process_block e r (ToolUseBlock toolName toolInput toolUseId) =
     process_tool_use e r toolName toolInput toolUseId"
| "process_block e r (TextBlock t) = Continue (process_text e r t)"
| "process_block e r (ToolResultBlock i err c) = Continue r"
| "process_block e r (OtherBlock ty) = Continue r"

fun process_blocks :: "env \<Rightarrow> query_state \<Rightarrow> block list \<Rightarrow> outcome" where
  "process_blocks e r [] = Continue r"
| "process_blocks e r (b # bs) =
     (case process_block e r b of
        Continue r1 \<Rightarrow> process_blocks e r1 bs
      | out \<Rightarrow> out)"

text \<open>
  One content block of a user message (lines 472 to 497): a tool result completes a
  pending tool.
\<close>

fun process_tool_result :: "env \<Rightarrow> query_state \<Rightarrow> block \<Rightarrow> query_state" where
  "process_tool_result e r (ToolResultBlock tool_use_id is_error content) =
     (case tool_use_id of
        None \<Rightarrow> r
      | Some i \<Rightarrow>
          if i = [] then r
          else (case pendingTools r i of
                  None \<Rightarrow> r
                | Some toolDisplay \<Rightarrow>
                    if toolDisplay = [] then r
                    else let r1 = r\<lparr>pendingTools := (pendingTools r)(i := None)\<rparr>;
                             resultText = extractToolResultText e content;
                             isError = (is_error \<or> looksLikeError e resultText);
                             doneDisplay =
                               (if isError
                                then formatToolErrorStatus e toolDisplay @
                                     summarizeToolOutput e content
                                else formatToolDoneStatus toolDisplay @
                                     summarizeToolOutput e content)
                         in statusCallback ToolDone doneDisplay None (Some i) FireAndForget r1))"
| "process_tool_result e r b = r"

text \<open>The session id is taken from the first event that has one (lines 319 to 323).\<close>

definition capture_session_id :: "env \<Rightarrow> query_state \<Rightarrow> event \<Rightarrow> query_state" where
  "capture_session_id e r ev =
     (if \<not> truthy (sessionId (sess r)) \<and> truthy (ev_session_id ev)
      then saveSession e (r\<lparr>sess := (sess r)\<lparr>sessionId := ev_session_id ev\<rparr>\<rparr>)
      else r)"

text \<open>
  A result message marks the query as completed and may carry the usage (lines 503 to
  517).
\<close>

definition complete_query :: "token_usage option \<Rightarrow> query_state \<Rightarrow> query_state" where
  "complete_query usage r =
     r\<lparr>queryCompleted := True,
       sess := (case usage of
                  Some u \<Rightarrow> (sess r)\<lparr>lastUsage := Some u\<rparr>
                | None \<Rightarrow> sess r)\<rparr>"

text \<open>One iteration of the \<open>for await\<close> loop (lines 300 to 518).\<close>

definition process_event :: "env \<Rightarrow> query_state \<Rightarrow> event \<Rightarrow> outcome" where
  "process_event e r ev =
     (if stopRequested (sess r) then Exit r
      else let r1 = capture_session_id e r ev in
        case ev_body ev of
          Assistant blocks \<Rightarrow>
            (case process_blocks e r1 blocks of
               Continue r2 \<Rightarrow> if askUserTriggered r2 then Exit r2 else Continue r2
             | out \<Rightarrow> out)
        | User content \<Rightarrow>
            (case content of
               Some blocks \<Rightarrow> Continue (foldl (process_tool_result e) r1 blocks)
             | None \<Rightarrow> Continue r1)
        | Result usage \<Rightarrow> Continue (complete_query usage r1)
        | OtherEvent ty \<Rightarrow> Continue r1)"

text \<open>
  A call of \<open>stop\<close> from outside, and the callback of the inactivity timer (lines 279
  to 285).
\<close>

definition stop_call :: "query_state \<Rightarrow> query_state" where
  "stop_call r = r\<lparr>sess := snd (stop (sess r))\<rparr>"

definition timer_fires :: "query_state \<Rightarrow> query_state" where
  "timer_fires r =
     r\<lparr>timedOut := True,
       sess := (sess r)\<lparr>abortController := map_option (\<lambda>aborted. True) (abortController (sess r))\<rparr>\<rparr>"

fun consume :: "env \<Rightarrow> query_state \<Rightarrow> item list \<Rightarrow> outcome" where
  "consume e r [] = Continue r"
| "consume e r (Ev ev # rest) =
     (case process_event e r ev of
        Continue r1 \<Rightarrow> consume e r1 rest
      | out \<Rightarrow> out)"
| "consume e r (StopCall # rest) = consume e (stop_call r) rest"
| "consume e r (TimerFires # rest) = consume e (timer_fires r) rest"

text \<open>The whole loop: the items, then the end of the stream.\<close>

definition event_loop :: "env \<Rightarrow> query_state \<Rightarrow> item list \<Rightarrow> ending \<Rightarrow> outcome" where
  "event_loop e r items ending =
     (case consume e r items of
        Continue r1 \<Rightarrow> (case ending of Ends \<Rightarrow> Exit r1 | Throws err \<Rightarrow> Thrown r1 err)
      | out \<Rightarrow> out)"

section \<open>\<open>sendMessageStreaming\<close>\<close>

text \<open>What the query is opened with, as far as it depends on the call.\<close>

record query_options =
  prompt :: string
  maxThinkingTokens :: nat
  resume :: "string option"

text \<open>
  The result of a call: the state it leaves, the options the stream was opened with
  (\<open>None\<close> when it was never opened), and the returned text (\<open>Inr\<close>) or the raised
  error (\<open>Inl\<close>, as \<open>String(error)\<close>).
\<close>

record send_result =
  final :: query_state
  opened :: "query_options option"
  returned :: "string + string"

definition timeout_notice :: string where
  "timeout_notice =
     e_clock @ '' Response timed out (a tool call may have stalled). Try rephrasing or asking me to skip web lookups.''"

definition start_state :: "session \<Rightarrow> saved_session list \<Rightarrow> query_state" where
  "start_state s h =
     \<lparr> sess = s, history = h, responseParts = [], currentSegmentId = 0,
       currentSegmentText = [], lastTextUpdate = 0, queryCompleted = False,
       askUserTriggered = False, pendingTools = Map.empty, timedOut = False,
       emitted = [], clock_reads = 0, ask_calls = 0 \<rparr>"

text \<open>
  The part of the call before the stream is opened (lines 185 to 276); \<open>Inl\<close> is the
  early failure.
\<close>

definition prepare ::
  "env \<Rightarrow> session \<Rightarrow> saved_session list \<Rightarrow> string \<Rightarrow> send_result + (query_state \<times> query_options)"
  where
  "prepare e s h message =
     (let isNewSession = \<not> isActive s;
          thinkingTokens = getThinkingLevel e message;
          r0 = start_state s h;
          (messageToSend, r1) =
            (if isNewSession
             then let (now, r) = read_clock e r0
                  in (''[Current date/time: '' @ toLocaleDateString e now @ '']'' @
                      ''\<newline>\<newline>'' @ message, r)
             else (message, r0));
          options = \<lparr> prompt = messageToSend, maxThinkingTokens = thinkingTokens,
                      resume = (if truthy (sessionId s) then sessionId s else None) \<rparr>;
          r2 = (if truthy (sessionId s) \<and> \<not> isNewSession then r1
                else r1\<lparr>sess := (sess r1)\<lparr>sessionId := None\<rparr>\<rparr>)
      in if stopRequested (sess r2)
         then Inl \<lparr> final = r2\<lparr>sess := (sess r2)\<lparr>stopRequested := False\<rparr>\<rparr>,
                    opened = None,
                    returned = Inl ''Error: Query cancelled'' \<rparr>
         else let (started, r3) = read_clock e r2
              in Inr (r3\<lparr>sess := (sess r3)\<lparr>abortController := Some False,
                                            isQueryRunning := True,
                                            stopRequested := False,
                                            queryStarted := Some started,
                                            currentTool := None\<rparr>\<rparr>,
                      options))"

text \<open>The \<open>finally\<close> block (lines 541 to 547).\<close>

definition cleanup :: "query_state \<Rightarrow> query_state" where
  "cleanup r =
     r\<lparr>sess := (sess r)\<lparr>isQueryRunning := False, abortController := None,
                          queryStarted := None, currentTool := None\<rparr>\<rparr>"

text \<open>The test of the \<open>catch\<close> block (lines 522 to 529): the error is swallowed.\<close>

definition suppressed :: "query_state \<Rightarrow> string \<Rightarrow> bool" where
  "suppressed r err =
     (let errorStr = toLowerCase err;
          isCleanupError = (str_includes errorStr ''cancel'' \<or> str_includes errorStr ''abort'')
      in isCleanupError \<and>
         (queryCompleted r \<or> askUserTriggered r \<or> stopRequested (sess r) \<or> timedOut r))"

text \<open>The part of the call after the \<open>try\<close> statement (lines 549 to 579).\<close>

definition finish :: "env \<Rightarrow> query_state \<Rightarrow> query_state \<times> string" where
  "finish e r =
     (let (now, r1) = read_clock e r;
          r2 = r1\<lparr>sess := (sess r1)\<lparr>lastActivity := Some now, lastError := None,
                                       lastErrorTime := None\<rparr>\<rparr>
      in if askUserTriggered r2
         then (statusCallback Done [] None None Awaited r2, ''[Waiting for user selection]'')
         else
           let r3 = (if currentSegmentText r2 \<noteq> []
                     then statusCallback SegmentEnd (currentSegmentText r2)
                            (Some (currentSegmentId r2)) None Awaited r2
                     else r2)
           in if timedOut r3 then
                let partial = concat (responseParts r3);
                    notice = timeout_notice;
                    noticeSegId = currentSegmentId r3 + 1;
                    r4 = statusCallback Text notice (Some noticeSegId) None Awaited r3;
                    r5 = statusCallback SegmentEnd notice (Some noticeSegId) None Awaited r4;
                    r6 = statusCallback Done [] None None Awaited r5
                in (r6, if partial \<noteq> [] then partial @ ''\<newline>\<newline>'' @ notice else notice)
              else
                (statusCallback Done [] None None Awaited r3,
                 if concat (responseParts r3) \<noteq> [] then concat (responseParts r3)
                 else ''No response from Claude.''))"

text \<open>
  The \<open>try\<close> statement (lines 289 to 547) and what follows it, from the state the
  stream is opened in.
\<close>

definition run_query ::
  "env \<Rightarrow> query_state \<Rightarrow> item list \<Rightarrow> ending \<Rightarrow> query_state \<times> (string + string)" where
  "run_query e r items ending =
     (case event_loop e r items ending of
        Thrown r1 err \<Rightarrow>
          if suppressed r1 err
          then (let (r2, t) = finish e (cleanup r1) in (r2, Inr t))
          else let (now, r2) = read_clock e r1;
                   r3 = r2\<lparr>sess := (sess r2)\<lparr>lastError := Some (take 100 err),
                                                lastErrorTime := Some now\<rparr>\<rparr>
               in (cleanup r3, Inl err)
      | Exit r1 \<Rightarrow> (let (r2, t) = finish e (cleanup r1) in (r2, Inr t))
      | Continue r1 \<Rightarrow> (let (r2, t) = finish e (cleanup r1) in (r2, Inr t)))"

definition sendMessageStreaming ::
  "env \<Rightarrow> session \<Rightarrow> saved_session list \<Rightarrow> string \<Rightarrow> item list \<Rightarrow> ending \<Rightarrow> send_result"
  where
  "sendMessageStreaming e s h message items ending =
     (case prepare e s h message of
        Inl failed \<Rightarrow> failed
      | Inr (r, options) \<Rightarrow>
          let (r1, res) = run_query e r items ending
          in \<lparr> final = r1, opened = Some options, returned = res \<rparr>)"

section \<open>Notions used in the statements\<close>

text \<open>Whether \<open>k\<close> occurs in \<open>s\<close> when the case of the letters is ignored on both sides.\<close>

definition includes_ignoring_case :: "string \<Rightarrow> string \<Rightarrow> bool" where
  "includes_ignoring_case s k = str_includes (toLowerCase s) (toLowerCase k)"

text \<open>
  The segment ids carried by a list of status updates, in order; those carried by its
  \<open>segment_end\<close> updates; and the number of \<open>segment_end\<close> updates for one id.
\<close>

definition seg_ids :: "emission list \<Rightarrow> nat list" where
  "seg_ids ems = List.map_filter segmentId ems"

definition seg_end_ids :: "emission list \<Rightarrow> nat list" where
  "seg_end_ids ems = List.map_filter segmentId (filter (\<lambda>x. kind x = SegmentEnd) ems)"

definition segment_end_count :: "emission list \<Rightarrow> nat \<Rightarrow> nat" where
  "segment_end_count ems n =
     length (filter (\<lambda>x. kind x = SegmentEnd \<and> segmentId x = Some n) ems)"

text \<open>The condition under which \<open>stop\<close> aborts: a query runs and has its controller.\<close>

definition running :: "query_state \<Rightarrow> bool" where
  "running r = (isQueryRunning (sess r) \<and> abortController (sess r) \<noteq> None)"

text \<open>
  The invariant of the loop on segment ids: the ids of the updates so far never
  decrease and are at most the current id; the closed ids strictly increase and are
  below the current id; an id that is not closed is the current one, whose text is
  not empty.
\<close>

definition seg_inv :: "query_state \<Rightarrow> bool" where
  "seg_inv r =
     (sorted (seg_ids (emitted r)) \<and>
      (\<forall>k \<in> set (seg_ids (emitted r)). k \<le> currentSegmentId r) \<and>
      sorted_wrt (<) (seg_end_ids (emitted r)) \<and>
      (\<forall>k \<in> set (seg_end_ids (emitted r)). k < currentSegmentId r) \<and>
      (\<forall>k \<in> set (seg_ids (emitted r)).
         k \<in> set (seg_end_ids (emitted r)) \<or>
         (k = currentSegmentId r \<and> currentSegmentText r \<noteq> [])))"

text \<open>The invariant of the loop on the pending tools: no empty identifier or display.\<close>

definition pending_ok :: "query_state \<Rightarrow> bool" where
  "pending_ok r = (\<forall>i d. pendingTools r i = Some d \<longrightarrow> i \<noteq> [] \<and> d \<noteq> [])"

text \<open>
  The status updates of the part of the call after the loop (lines 553 to 577): the
  flush of the open segment, the two updates of the timeout notice, and \<open>done\<close>.
\<close>

definition flush_emission :: "query_state \<Rightarrow> emission" where
  "flush_emission r =
     \<lparr>kind = SegmentEnd, payload = currentSegmentText r,
      segmentId = Some (currentSegmentId r), toolId = None, dispatch = Awaited\<rparr>"

definition notice_emissions :: "query_state \<Rightarrow> emission list" where
  "notice_emissions r =
     [\<lparr>kind = Text, payload = timeout_notice, segmentId = Some (currentSegmentId r + 1),
       toolId = None, dispatch = Awaited\<rparr>,
      \<lparr>kind = SegmentEnd, payload = timeout_notice, segmentId = Some (currentSegmentId r + 1),
       toolId = None, dispatch = Awaited\<rparr>]"

definition done_emission :: emission where
  "done_emission =
     \<lparr>kind = Done, payload = [], segmentId = None, toolId = None, dispatch = Awaited\<rparr>"

definition closing :: "query_state \<Rightarrow> emission list" where
  "closing r =
     (if askUserTriggered r then [done_emission]
      else (if currentSegmentText r \<noteq> [] then [flush_emission r] else []) @
           (if timedOut r then notice_emissions r else []) @ [done_emission])"

text \<open>The text the call returns after the loop.\<close>

definition response :: "query_state \<Rightarrow> string" where
  "response r =
     (if askUserTriggered r then ''[Waiting for user selection]''
      else if timedOut r then
        (if concat (responseParts r) \<noteq> []
         then concat (responseParts r) @ ''\<newline>\<newline>'' @ timeout_notice
         else timeout_notice)
      else if concat (responseParts r) \<noteq> [] then concat (responseParts r)
      else ''No response from Claude.'')"

text \<open>
  How an update made inside the loop is sent off, by its kind. A \<open>tool\<close> update that
  is awaited announces a blocked tool use.
\<close>

definition loop_dispatch :: "emission \<Rightarrow> bool" where
  "loop_dispatch x =
     (case kind x of
        Thinking \<Rightarrow> dispatch x = FireAndForget
      | ToolDone \<Rightarrow> dispatch x = FireAndForget
      | SegmentEnd \<Rightarrow> dispatch x = FireAndForget
      | Text \<Rightarrow> dispatch x = Awaited
      | Tool \<Rightarrow> dispatch x = FireAndForget \<or>
                startsWith (payload x) ''BLOCKED: '' \<or>
                startsWith (payload x) ''Access denied: ''
      | Done \<Rightarrow> False)"

text \<open>How an update made after the loop is sent off.\<close>

definition closing_dispatch :: "emission \<Rightarrow> bool" where
  "closing_dispatch x =
     (dispatch x = Awaited \<and> (kind x = SegmentEnd \<or> kind x = Text \<or> kind x = Done))"

definition dispatch_inv :: "query_state \<Rightarrow> bool" where
  "dispatch_inv r = list_all loop_dispatch (emitted r)"

text \<open>Items that are no events of the stream.\<close>

definition external_only :: "item list \<Rightarrow> bool" where
  "external_only mid = list_all (\<lambda>i. i = StopCall \<or> i = TimerFires) mid"

text \<open>
  A series of calls of \<open>sendMessageStreaming\<close>, each given by its session, message and
  stream, and the session file after them, each call working on the file the one
  before it left.
\<close>

type_synonym call = "session \<times> string \<times> item list \<times> ending"

fun history_after :: "env \<Rightarrow> saved_session list \<Rightarrow> call list \<Rightarrow> saved_session list" where
  "history_after e h [] = h"
| "history_after e h ((s, message, items, ending) # calls) =
     history_after e (history (final (sendMessageStreaming e s h message items ending))) calls"

text \<open>
  A call that starts a new session, is not cancelled before the stream is opened, and
  whose first event carries the session id \<open>sid\<close>.
\<close>

definition new_session_call :: "string \<Rightarrow> call \<Rightarrow> bool" where
  "new_session_call sid c =
     (case c of (s, message, items, ending) \<Rightarrow>
        sessionId s = None \<and> \<not> stopRequested s \<and> sid \<noteq> [] \<and>
        (case items of
           Ev ev # rest \<Rightarrow> ev_session_id ev = Some sid
         | _ \<Rightarrow> False))"

text \<open>
  Two invariants of the loop on the session file: once the session has its id the
  file stays as it is, and no two records of the file share an id.
\<close>

definition saved :: "saved_session list \<Rightarrow> query_state \<Rightarrow> bool" where
  "saved H q = (history q = H \<and> truthy (sessionId (sess q)))"

definition unique_ids :: "query_state \<Rightarrow> bool" where
  "unique_ids q = distinct (map session_id (history q))"

section \<open>Examples\<close>

text \<open>
  Values for the configuration and the collaborators, a record of the session index,
  and a session in the processing phase with calls on it.
\<close>

definition demo_env :: env where
  "demo_env =
     \<lparr> THINKING_DEEP_KEYWORDS = [''ultrathink'', ''think hard''],
       THINKING_KEYWORDS = [''think'', ''reason''],
       TEMP_PATHS = [''/tmp/'', ''/private/tmp/''],
       WORKING_DIR = ''/home/bot'',
       STREAMING_THROTTLE_MS = 500,
       checkCommandSafety =
         (\<lambda>command. if str_includes command ''rm -rf /''
                    then (False, ''dangerous pattern: rm -rf /'') else (True, [])),
       isPathAllowed = (\<lambda>filePath. startsWith filePath ''/home/bot''),
       extractToolResultText = (\<lambda>content. content),
       looksLikeError = (\<lambda>t. startsWith (toLowerCase t) ''error''),
       formatToolErrorStatus = (\<lambda>toolDisplay. ''[failed] '' @ toolDisplay),
       summarizeToolOutput = (\<lambda>content. '' - '' @ take 20 content),
       checkPendingAskUserRequests = (\<lambda>n. True),
       ask_user_ctx = True,
       Date_now = (\<lambda>n. 1700000000000 + 1000 * int n),
       toLocaleDateString = (\<lambda>t. ''Monday, January 1, 2024'') \<rparr>"

definition demo_record :: "string \<Rightarrow> date \<Rightarrow> saved_session" where
  "demo_record i t =
     \<lparr> session_id = i, saved_at = t, working_dir = ''/home/bot'',
       title = ''Sessione senza titolo'' \<rparr>"

definition demo_session :: session where
  "demo_session = new_session\<lparr>isProcessing := True\<rparr>"

definition demo_running_session :: session where
  "demo_running_session = new_session\<lparr>isQueryRunning := True, abortController := Some False\<rparr>"

definition demo_call :: "item list \<Rightarrow> ending \<Rightarrow> send_result" where
  "demo_call items ending = sendMessageStreaming demo_env demo_session [] ''hello'' items ending"

text \<open>The state such a call opens the stream in, and the state of its loop after some items.\<close>

definition demo_opened :: query_state where
  "demo_opened =
     (case prepare demo_env demo_session [] ''hello'' of
        Inr (r, opts) \<Rightarrow> r
      | Inl res \<Rightarrow> final res)"

definition demo_after :: "item list \<Rightarrow> query_state" where
  "demo_after items = out_state (consume demo_env demo_opened items)"

text \<open>
  Streams: text, a tool and its result, more text and the result message; an ask-user
  tool followed by text in one message; an unsafe command; some text and no more; and
  an event that arrives late.
\<close>

definition demo_tool_stream :: "item list" where
  "demo_tool_stream =
     [Ev (Event (Some ''sess-1'')
        (Assistant [TextBlock ''Here are the results of the search'',
                    ToolUseBlock ''Bash'' [''command'' \<mapsto> ''ls''] (Some ''t1'')])),
      Ev (Event (Some ''sess-1'') (User (Some [ToolResultBlock (Some ''t1'') False ''a.txt'']))),
      Ev (Event (Some ''sess-1'') (Assistant [TextBlock ''All done with the listing now''])),
      Ev (Event (Some ''sess-1'') (Result None))]"

definition demo_ask_stream :: "item list" where
  "demo_ask_stream =
     [Ev (Event (Some ''sess-1'')
        (Assistant [ToolUseBlock ''mcp__ask-user__ask'' Map.empty (Some ''t1''),
                    TextBlock ''Please choose one of the options below'']))]"

definition demo_unsafe_stream :: "item list" where
  "demo_unsafe_stream =
     [Ev (Event (Some ''sess-1'')
        (Assistant [ToolUseBlock ''Bash'' [''command'' \<mapsto> ''rm -rf /''] (Some ''t1'')]))]"

definition demo_partial_stream :: "item list" where
  "demo_partial_stream =
     [Ev (Event (Some ''sess-1'') (Assistant [TextBlock ''Here are the result'']))]"

definition demo_late_event :: item where
  "demo_late_event = Ev (Event (Some ''sess-1'') (Assistant [TextBlock '' of the search'']))"

text \<open>A call that starts a new session and is told its id by the first event.\<close>

definition demo_new_call :: "string \<Rightarrow> call" where
  "demo_new_call sid = (new_session, ''hello'', [Ev (Event (Some sid) (Result None))], Ends)"

section \<open>Properties of the string functions\<close>

lemma str_includes_iff: "str_includes s k \<longleftrightarrow> (\<exists>p q. s = p @ k @ q)"
proof (induction s)
  case Nil
  then show ?case by simp
next
  case (Cons c s)
  have here: "startsWith (c # s) k \<longleftrightarrow> (\<exists>q. c # s = k @ q)"
    unfolding startsWith_def
    by (metis append_eq_conv_conj append_take_drop_id)
  have "(\<exists>p q. c # s = p @ k @ q) \<longleftrightarrow> (\<exists>q. c # s = k @ q) \<or> (\<exists>p q. s = p @ k @ q)"
  proof
    assume "\<exists>p q. c # s = p @ k @ q"
    then obtain p q where pq: "c # s = p @ k @ q" by blast
    show "(\<exists>q. c # s = k @ q) \<or> (\<exists>p q. s = p @ k @ q)"
    proof (cases p)
      case Nil
      with pq show ?thesis by auto
    next
      case (Cons a p')
      with pq have "s = p' @ k @ q" by simp
      then show ?thesis by blast
    qed
  next
    assume "(\<exists>q. c # s = k @ q) \<or> (\<exists>p q. s = p @ k @ q)"
    then show "\<exists>p q. c # s = p @ k @ q"
    proof
      assume "\<exists>q. c # s = k @ q"
      then obtain q where "c # s = [] @ k @ q" by auto
      then show ?thesis by blast
    next
      assume "\<exists>p q. s = p @ k @ q"
      then obtain p q where "c # s = (c # p) @ k @ q" by auto
      then show ?thesis by blast
    qed
  qed
  with Cons here show ?case by simp
qed

lemma keyword_occurs_iff:
  "list_ex (str_includes s) ks \<longleftrightarrow> (\<exists>k \<in> set ks. \<exists>p q. s = p @ k @ q)"
  by (simp add: list_ex_iff str_includes_iff)

section \<open>Properties of the thinking budget\<close>

text \<open>
  C6. The budget is a total function of the message and the two keyword lists, with no
  effect. It is 50000 as soon as some deep keyword occurs in the lower-cased message,
  whether or not a normal keyword occurs too; it is 10000 when no deep keyword but
  some normal keyword occurs; it is 0 when none occurs. The test is a substring test
  on the lower-cased message, so two messages that differ only in the case of their
  letters get the same budget; and when the configured keywords are written in lower
  case, it is the substring test that ignores the case of the letters.
\<close>

theorem getThinkingLevel_tiers:
  "((\<exists>k \<in> set (THINKING_DEEP_KEYWORDS e). \<exists>p q. toLowerCase message = p @ k @ q)
      \<longrightarrow> getThinkingLevel e message = 50000) \<and>
   (\<not> (\<exists>k \<in> set (THINKING_DEEP_KEYWORDS e). \<exists>p q. toLowerCase message = p @ k @ q) \<and>
    (\<exists>k \<in> set (THINKING_KEYWORDS e). \<exists>p q. toLowerCase message = p @ k @ q)
      \<longrightarrow> getThinkingLevel e message = 10000) \<and>
   (\<not> (\<exists>k \<in> set (THINKING_DEEP_KEYWORDS e). \<exists>p q. toLowerCase message = p @ k @ q) \<and>
    \<not> (\<exists>k \<in> set (THINKING_KEYWORDS e). \<exists>p q. toLowerCase message = p @ k @ q)
      \<longrightarrow> getThinkingLevel e message = 0) \<and>
   (toLowerCase message = toLowerCase message'
      \<longrightarrow> getThinkingLevel e message = getThinkingLevel e message') \<and>
   ((\<forall>k \<in> set (THINKING_DEEP_KEYWORDS e) \<union> set (THINKING_KEYWORDS e). toLowerCase k = k)
      \<longrightarrow> getThinkingLevel e message =
            (if \<exists>k \<in> set (THINKING_DEEP_KEYWORDS e). includes_ignoring_case message k
             then 50000
             else if \<exists>k \<in> set (THINKING_KEYWORDS e). includes_ignoring_case message k
             then 10000
             else 0))"
proof -
  have ignoring: "getThinkingLevel e message =
      (if \<exists>k \<in> set (THINKING_DEEP_KEYWORDS e). includes_ignoring_case message k then 50000
       else if \<exists>k \<in> set (THINKING_KEYWORDS e). includes_ignoring_case message k then 10000
       else 0)"
    if "\<forall>k \<in> set (THINKING_DEEP_KEYWORDS e) \<union> set (THINKING_KEYWORDS e). toLowerCase k = k"
    using that
    by (simp add: getThinkingLevel_def Let_def list_ex_iff includes_ignoring_case_def)
  have lowered:
    "((\<exists>k \<in> set (THINKING_DEEP_KEYWORDS e). \<exists>p q. toLowerCase message = p @ k @ q)
        \<longrightarrow> getThinkingLevel e message = 50000) \<and>
     (\<not> (\<exists>k \<in> set (THINKING_DEEP_KEYWORDS e). \<exists>p q. toLowerCase message = p @ k @ q) \<and>
      (\<exists>k \<in> set (THINKING_KEYWORDS e). \<exists>p q. toLowerCase message = p @ k @ q)
        \<longrightarrow> getThinkingLevel e message = 10000) \<and>
     (\<not> (\<exists>k \<in> set (THINKING_DEEP_KEYWORDS e). \<exists>p q. toLowerCase message = p @ k @ q) \<and>
      \<not> (\<exists>k \<in> set (THINKING_KEYWORDS e). \<exists>p q. toLowerCase message = p @ k @ q)
        \<longrightarrow> getThinkingLevel e message = 0) \<and>
     (toLowerCase message = toLowerCase message'
        \<longrightarrow> getThinkingLevel e message = getThinkingLevel e message')"
    by (simp add: getThinkingLevel_def Let_def list_ex_iff str_includes_iff)
  from lowered ignoring show ?thesis by blast
qed

theorem getThinkingLevel_tiers_witness:
  "getThinkingLevel demo_env ''Please THINK HARD about it'' = 50000 \<and>
   getThinkingLevel demo_env ''I Think so'' = 10000 \<and>
   getThinkingLevel demo_env ''hi'' = 0 \<and>
   getThinkingLevel demo_env ''REASON'' = getThinkingLevel demo_env ''reason'' \<and>
   getThinkingLevel demo_env ''UltraThink, then reason'' = 50000"
proof -
  have keys: "THINKING_DEEP_KEYWORDS demo_env = [''ultrathink'', ''think hard'']"
    "THINKING_KEYWORDS demo_env = [''think'', ''reason'']"
    by (simp_all add: demo_env_def)
  have "str_includes (toLowerCase ''Please THINK HARD about it'') ''think hard''"
    by code_simp
  then have deep: "\<exists>k \<in> set (THINKING_DEEP_KEYWORDS demo_env).
      \<exists>p q. toLowerCase ''Please THINK HARD about it'' = p @ k @ q"
    by (simp add: keys str_includes_iff)
  have "\<not> list_ex (str_includes (toLowerCase ''I Think so'')) [''ultrathink'', ''think hard'']"
    by code_simp
  then have no_deep: "\<not> (\<exists>k \<in> set (THINKING_DEEP_KEYWORDS demo_env).
      \<exists>p q. toLowerCase ''I Think so'' = p @ k @ q)"
    by (simp only: keys keyword_occurs_iff not_False_eq_True)
  have "str_includes (toLowerCase ''I Think so'') ''think''"
    by code_simp
  then have normal: "\<exists>k \<in> set (THINKING_KEYWORDS demo_env).
      \<exists>p q. toLowerCase ''I Think so'' = p @ k @ q"
    by (simp add: keys str_includes_iff)
  have "\<not> list_ex (str_includes (toLowerCase ''hi'')) [''ultrathink'', ''think hard'']"
    by code_simp
  then have hi_deep: "\<not> (\<exists>k \<in> set (THINKING_DEEP_KEYWORDS demo_env).
      \<exists>p q. toLowerCase ''hi'' = p @ k @ q)"
    by (simp only: keys keyword_occurs_iff not_False_eq_True)
  have "\<not> list_ex (str_includes (toLowerCase ''hi'')) [''think'', ''reason'']"
    by code_simp
  then have hi_normal: "\<not> (\<exists>k \<in> set (THINKING_KEYWORDS demo_env).
      \<exists>p q. toLowerCase ''hi'' = p @ k @ q)"
    by (simp only: keys keyword_occurs_iff not_False_eq_True)
  have same: "toLowerCase ''REASON'' = toLowerCase ''reason''"
    by code_simp
  have lower: "\<forall>k \<in> set (THINKING_DEEP_KEYWORDS demo_env) \<union> set (THINKING_KEYWORDS demo_env).
      toLowerCase k = k"
    by code_simp
  have both: "\<exists>k \<in> set (THINKING_DEEP_KEYWORDS demo_env).
      includes_ignoring_case ''UltraThink, then reason'' k"
    "\<exists>k \<in> set (THINKING_KEYWORDS demo_env).
      includes_ignoring_case ''UltraThink, then reason'' k"
    by code_simp+
  have t1: "getThinkingLevel demo_env ''Please THINK HARD about it'' = 50000"
    using getThinkingLevel_tiers [of demo_env "''Please THINK HARD about it''"] deep by blast
  have t2: "getThinkingLevel demo_env ''I Think so'' = 10000"
    using getThinkingLevel_tiers [of demo_env "''I Think so''"] no_deep normal by blast
  have t3: "getThinkingLevel demo_env ''hi'' = 0"
    using getThinkingLevel_tiers [of demo_env "''hi''"] hi_deep hi_normal by blast
  have t4: "getThinkingLevel demo_env ''REASON'' = getThinkingLevel demo_env ''reason''"
    using getThinkingLevel_tiers [of demo_env "''REASON''" "''reason''"] same by blast
  from getThinkingLevel_tiers [of demo_env "''UltraThink, then reason''"] lower both(1)
  have t5: "getThinkingLevel demo_env ''UltraThink, then reason'' = 50000"
    by simp
  from t1 t2 t3 t4 t5 show ?thesis by blast
qed

section \<open>Properties of the session index\<close>

lemma findIndex_None: "findIndex P xs = None \<longleftrightarrow> (\<forall>x \<in> set xs. \<not> P x)"
  by (induction xs) auto

lemma findIndex_Some:
  "findIndex P xs = Some i \<longleftrightarrow> i < length xs \<and> P (xs ! i) \<and> (\<forall>j < i. \<not> P (xs ! j))"
proof (induction xs arbitrary: i)
  case Nil
  then show ?case by simp
next
  case (Cons x xs)
  show ?case
  proof (cases "P x")
    case True
    then show ?thesis
      by (cases i) auto
  next
    case False
    show ?thesis
    proof (cases i)
      case 0
      with False show ?thesis by auto
    next
      case (Suc n)
      have "(\<forall>j < Suc n. \<not> P ((x # xs) ! j)) \<longleftrightarrow> (\<forall>j < n. \<not> P (xs ! j))"
        using False by (auto simp: less_Suc_eq_0_disj)
      with False Suc Cons.IH [of n] show ?thesis by auto
    qed
  qed
qed

lemma upsert_new:
  assumes "session_id r \<notin> session_id ` set xs"
  shows "upsert r xs = take MAX_SESSIONS (r # xs)"
proof -
  have "findIndex (\<lambda>s. session_id s = session_id r) xs = None"
    using assms by (auto simp: findIndex_None image_iff)
  then show ?thesis by (simp add: upsert_def)
qed

lemma upsert_existing:
  assumes "i < length xs" "session_id (xs ! i) = session_id r"
    and "\<forall>j < i. session_id (xs ! j) \<noteq> session_id r"
  shows "upsert r xs = take MAX_SESSIONS (xs[i := r])"
proof -
  have "findIndex (\<lambda>s. session_id s = session_id r) xs = Some i"
    using assms by (simp add: findIndex_Some)
  then show ?thesis by (simp add: upsert_def)
qed

lemma map_session_id_update:
  "i < length xs \<Longrightarrow> session_id (xs ! i) = session_id r \<Longrightarrow>
   map session_id (xs[i := r]) = map session_id xs"
  by (simp add: map_update list_update_same_conv)

lemma distinct_map_take: "distinct (map f xs) \<Longrightarrow> distinct (map f (take n xs))"
  by (metis distinct_take take_map)

lemma upsert_distinct:
  assumes "distinct (map session_id xs)"
  shows "distinct (map session_id (upsert r xs))"
proof (cases "findIndex (\<lambda>s. session_id s = session_id r) xs")
  case None
  then have "session_id r \<notin> session_id ` set xs"
    by (auto simp: findIndex_None)
  with assms have "distinct (map session_id (r # xs))" by simp
  then have "distinct (map session_id (take MAX_SESSIONS (r # xs)))"
    by (rule distinct_map_take)
  with None show ?thesis by (simp add: upsert_def)
next
  case (Some i)
  then have "i < length xs" "session_id (xs ! i) = session_id r"
    by (simp_all add: findIndex_Some)
  then have "map session_id (xs[i := r]) = map session_id xs"
    by (rule map_session_id_update)
  with assms have "distinct (map session_id (take MAX_SESSIONS (xs[i := r])))"
    by (simp add: distinct_map_take)
  with Some show ?thesis by (simp add: upsert_def)
qed

lemma insert_all_snoc: "insert_all (rs @ [r]) = upsert r (insert_all rs)"
  by (simp add: insert_all_def)

lemma insert_all_distinct: "distinct (map session_id (insert_all rs))"
proof (induction rs rule: rev_induct)
  case Nil
  then show ?case by (simp add: insert_all_def)
next
  case (snoc r rs)
  then show ?case by (simp add: insert_all_snoc upsert_distinct)
qed

lemma insert_all_fresh:
  "distinct (map session_id rs) \<Longrightarrow> insert_all rs = take MAX_SESSIONS (rev rs)"
proof (induction rs rule: rev_induct)
  case Nil
  then show ?case by (simp add: insert_all_def)
next
  case (snoc r rs)
  then have ih: "insert_all rs = take MAX_SESSIONS (rev rs)"
    and fresh: "session_id r \<notin> session_id ` set rs"
    by auto
  have "session_id r \<notin> session_id ` set (take MAX_SESSIONS (rev rs))"
    using fresh by (auto dest: in_set_takeD)
  then have "upsert r (take MAX_SESSIONS (rev rs)) =
      take MAX_SESSIONS (r # take MAX_SESSIONS (rev rs))"
    by (rule upsert_new)
  also have "\<dots> = take MAX_SESSIONS (r # rev rs)"
    by (simp add: MAX_SESSIONS_def take_Cons')
  finally show ?case by (simp add: insert_all_snoc ih)
qed

lemma saveSession_history:
  assumes "sessionId (sess q) = Some sid" "sid \<noteq> []"
  shows "history (saveSession e q) =
    upsert \<lparr> session_id = sid, saved_at = Date_now e (clock_reads q),
             working_dir = WORKING_DIR e,
             title = (case conversationTitle (sess q) of
                        Some t \<Rightarrow> if t \<noteq> [] then t else ''Sessione senza titolo''
                      | None \<Rightarrow> ''Sessione senza titolo'') \<rparr>
      (history q)"
  using assms by (simp add: saveSession_def read_clock_def Let_def)

text \<open>
  C2, as the code has it. A record whose id is not in the index is put in front; a
  record whose id is in the index is written over the first record of that id, at the
  position of that record; in both cases the list is then cut to \<open>MAX_SESSIONS\<close>
  records. \<open>saveSession\<close> does this to the session file with the record of the
  current session, whenever the session has an id.
\<close>

theorem upsert_front_or_in_place:
  "(session_id r \<notin> session_id ` set xs \<longrightarrow> upsert r xs = take MAX_SESSIONS (r # xs)) \<and>
   (i < length xs \<and> session_id (xs ! i) = session_id r \<and>
    (\<forall>j < i. session_id (xs ! j) \<noteq> session_id r)
      \<longrightarrow> upsert r xs = take MAX_SESSIONS (xs[i := r])) \<and>
   (sessionId (sess q) = Some sid \<and> sid \<noteq> [] \<longrightarrow>
      history (saveSession e q) =
        upsert \<lparr> session_id = sid, saved_at = Date_now e (clock_reads q),
                 working_dir = WORKING_DIR e,
                 title = (case conversationTitle (sess q) of
                            Some t \<Rightarrow> if t \<noteq> [] then t else ''Sessione senza titolo''
                          | None \<Rightarrow> ''Sessione senza titolo'') \<rparr>
          (history q))"
  using upsert_new upsert_existing saveSession_history by blast

theorem upsert_front_or_in_place_witness:
  "upsert (demo_record ''c'' 3) [demo_record ''a'' 1, demo_record ''b'' 2] =
     [demo_record ''c'' 3, demo_record ''a'' 1, demo_record ''b'' 2] \<and>
   upsert (demo_record ''b'' 3) [demo_record ''a'' 1, demo_record ''b'' 2] =
     [demo_record ''a'' 1, demo_record ''b'' 3] \<and>
   history (saveSession demo_env
     (start_state (new_session\<lparr>sessionId := Some ''b''\<rparr>)
        [demo_record ''a'' 1, demo_record ''b'' 2])) =
     [demo_record ''a'' 1, demo_record ''b'' 1700000000000]"
proof -
  let ?q = "start_state (new_session\<lparr>sessionId := Some ''b''\<rparr>)
      [demo_record ''a'' 1, demo_record ''b'' 2]"
  have fresh: "session_id (demo_record ''c'' 3) \<notin>
      session_id ` set [demo_record ''a'' 1, demo_record ''b'' 2]"
    by (simp add: demo_record_def)
  have found: "1 < length [demo_record ''a'' 1, demo_record ''b'' 2] \<and>
      session_id ([demo_record ''a'' 1, demo_record ''b'' 2] ! 1) =
        session_id (demo_record ''b'' 3) \<and>
      (\<forall>j < 1. session_id ([demo_record ''a'' 1, demo_record ''b'' 2] ! j) \<noteq>
        session_id (demo_record ''b'' 3))"
    by (simp add: demo_record_def)
  have current: "sessionId (sess ?q) = Some ''b'' \<and> ''b'' \<noteq> []"
    by (simp add: start_state_def)
  from fresh
    upsert_front_or_in_place
      [of "demo_record ''c'' 3" "[demo_record ''a'' 1, demo_record ''b'' 2]" 0]
  have new: "upsert (demo_record ''c'' 3) [demo_record ''a'' 1, demo_record ''b'' 2] =
      [demo_record ''c'' 3, demo_record ''a'' 1, demo_record ''b'' 2]"
    by (simp add: MAX_SESSIONS_def)
  from found
    upsert_front_or_in_place
      [of "demo_record ''b'' 3" "[demo_record ''a'' 1, demo_record ''b'' 2]" 1]
  have existing: "upsert (demo_record ''b'' 3) [demo_record ''a'' 1, demo_record ''b'' 2] =
      [demo_record ''a'' 1, demo_record ''b'' 3]"
    by (simp add: MAX_SESSIONS_def)
  from upsert_front_or_in_place [where q = ?q and sid = "''b''" and e = demo_env,
      THEN conjunct2, THEN conjunct2, THEN mp, OF current]
  have "history (saveSession demo_env ?q) =
      upsert (demo_record ''b'' 1700000000000) [demo_record ''a'' 1, demo_record ''b'' 2]"
    by (simp add: start_state_def new_session_def demo_env_def demo_record_def)
  also from found
    upsert_front_or_in_place
      [of "demo_record ''b'' 1700000000000" "[demo_record ''a'' 1, demo_record ''b'' 2]" 1]
  have "\<dots> = [demo_record ''a'' 1, demo_record ''b'' 1700000000000]"
    by (simp add: MAX_SESSIONS_def demo_record_def)
  finally have saved: "history (saveSession demo_env ?q) =
      [demo_record ''a'' 1, demo_record ''b'' 1700000000000]" .
  from new existing saved show ?thesis by (intro conjI)
qed

text \<open>
  The claim C2 as the specification words it, that the saved record always ends up in
  front, fails where the id is already in the index behind another record.
\<close>

theorem upsert_always_front_counterexample:
  "upsert (demo_record ''b'' 3) [demo_record ''a'' 1, demo_record ''b'' 2] =
     [demo_record ''a'' 1, demo_record ''b'' 3] \<and>
   hd (upsert (demo_record ''b'' 3) [demo_record ''a'' 1, demo_record ''b'' 2]) \<noteq>
     demo_record ''b'' 3"
  by (simp add: upsert_def demo_record_def MAX_SESSIONS_def)

section \<open>Invariants of the event loop\<close>

lemma process_tool_use_preserves:
  assumes blocked: "\<And>r n i status err. P r \<Longrightarrow> safety_check e n i = Some (status, err) \<Longrightarrow>
      P (statusCallback Tool status None None Awaited r)"
    and close: "\<And>r. P r \<Longrightarrow> P (close_segment r)"
    and shown: "\<And>r n i u. P r \<Longrightarrow> P (show_tool r n i u)"
    and ask: "\<And>r n. P r \<Longrightarrow> P (check_ask_user e n r)"
    and "P r"
  shows "P (out_state (process_tool_use e r n i u))"
  using assms by (simp add: process_tool_use_def split: option.splits prod.splits)

lemma process_block_preserves:
  assumes thinking: "\<And>r t. P r \<Longrightarrow> P (process_thinking r t)"
    and on_text: "\<And>r t. P r \<Longrightarrow> P (process_text e r t)"
    and tool: "\<And>r n i u. P r \<Longrightarrow> P (out_state (process_tool_use e r n i u))"
    and "P r"
  shows "P (out_state (process_block e r b))"
  using assms by (cases b) simp_all

lemma process_blocks_preserves:
  assumes block: "\<And>r b. P r \<Longrightarrow> P (out_state (process_block e r b))"
    and "P r"
  shows "P (out_state (process_blocks e r bs))"
  using \<open>P r\<close>
proof (induction bs arbitrary: r)
  case Nil
  then show ?case by simp
next
  case (Cons b bs)
  from block [OF Cons.prems] have "P (out_state (process_block e r b))" .
  with Cons.IH show ?case
    by (cases "process_block e r b") auto
qed

lemma foldl_preserves:
  assumes "\<And>r b. P r \<Longrightarrow> P (f r b)" and "P r"
  shows "P (foldl f r bs)"
  using assms(2) by (induction bs arbitrary: r) (auto intro: assms(1))

lemma process_event_preserves:
  assumes block: "\<And>r b. P r \<Longrightarrow> P (out_state (process_block e r b))"
    and result: "\<And>r b. P r \<Longrightarrow> P (process_tool_result e r b)"
    and capture: "\<And>r ev. P r \<Longrightarrow> P (capture_session_id e r ev)"
    and completed: "\<And>r u. P r \<Longrightarrow> P (complete_query u r)"
    and "P r"
  shows "P (out_state (process_event e r ev))"
proof (cases "stopRequested (sess r)")
  case True
  with \<open>P r\<close> show ?thesis by (simp add: process_event_def)
next
  case False
  let ?r1 = "capture_session_id e r ev"
  have r1: "P ?r1" using \<open>P r\<close> by (rule capture)
  show ?thesis
  proof (cases "ev_body ev")
    case (Assistant blocks)
    have "P (out_state (process_blocks e ?r1 blocks))"
      using block r1 by (rule process_blocks_preserves)
    with False Assistant show ?thesis
      by (cases "process_blocks e ?r1 blocks") (simp_all add: process_event_def)
  next
    case (User content)
    have "P (foldl (process_tool_result e) ?r1 blocks)" for blocks
      using result r1 by (rule foldl_preserves)
    with False User r1 show ?thesis
      by (cases content) (simp_all add: process_event_def)
  next
    case (Result usage)
    with False completed [OF r1] show ?thesis by (simp add: process_event_def)
  next
    case (OtherEvent ty)
    with False r1 show ?thesis by (simp add: process_event_def)
  qed
qed

lemma consume_preserves:
  assumes event: "\<And>r ev. P r \<Longrightarrow> P (out_state (process_event e r ev))"
    and stopped: "\<And>r. P r \<Longrightarrow> P (stop_call r)"
    and timer: "\<And>r. P r \<Longrightarrow> P (timer_fires r)"
    and "P r"
  shows "P (out_state (consume e r items))"
  using \<open>P r\<close>
proof (induction items arbitrary: r)
  case Nil
  then show ?case by simp
next
  case (Cons i rest)
  show ?case
  proof (cases i)
    case (Ev ev)
    from event [OF Cons.prems] have "P (out_state (process_event e r ev))" .
    with Cons.IH Ev show ?thesis
      by (cases "process_event e r ev") auto
  next
    case StopCall
    with Cons show ?thesis by (simp add: stopped)
  next
    case TimerFires
    with Cons show ?thesis by (simp add: timer)
  qed
qed

text \<open>The rule that puts the above together: a property kept by every step of the
  loop holds of the state the loop ends in.\<close>

lemma loop_invariant:
  assumes thinking: "\<And>r t. P r \<Longrightarrow> P (process_thinking r t)"
    and on_text: "\<And>r t. P r \<Longrightarrow> P (process_text e r t)"
    and blocked: "\<And>r n i status err. P r \<Longrightarrow> safety_check e n i = Some (status, err) \<Longrightarrow>
      P (statusCallback Tool status None None Awaited r)"
    and close: "\<And>r. P r \<Longrightarrow> P (close_segment r)"
    and shown: "\<And>r n i u. P r \<Longrightarrow> P (show_tool r n i u)"
    and ask: "\<And>r n. P r \<Longrightarrow> P (check_ask_user e n r)"
    and result: "\<And>r b. P r \<Longrightarrow> P (process_tool_result e r b)"
    and capture: "\<And>r ev. P r \<Longrightarrow> P (capture_session_id e r ev)"
    and completed: "\<And>r u. P r \<Longrightarrow> P (complete_query u r)"
    and stopped: "\<And>r. P r \<Longrightarrow> P (stop_call r)"
    and timer: "\<And>r. P r \<Longrightarrow> P (timer_fires r)"
    and "P r"
  shows "P (out_state (consume e r items))"
proof -
  have tool: "P (out_state (process_tool_use e r n i u))" if "P r" for r n i u
    using blocked close shown ask that by (rule process_tool_use_preserves)
  have block: "P (out_state (process_block e r b))" if "P r" for r b
    using thinking on_text tool that by (rule process_block_preserves)
  have event: "P (out_state (process_event e r ev))" if "P r" for r ev
    using block result capture completed that by (rule process_event_preserves)
  show ?thesis
    using event stopped timer \<open>P r\<close> by (rule consume_preserves)
qed

named_theorems step_defs

declare process_thinking_def [step_defs] process_text_def [step_defs]
  statusCallback_def [step_defs] close_segment_def [step_defs] show_tool_def [step_defs]
  capture_session_id_def [step_defs] saveSession_def [step_defs] read_clock_def [step_defs]
  complete_query_def [step_defs] stop_call_def [step_defs] stop_def [step_defs]
  timer_fires_def [step_defs]

subsection \<open>What the steps leave alone\<close>

lemma ask_attempts_frame:
  "sess (ask_attempts e n r) = sess r \<and> history (ask_attempts e n r) = history r \<and>
   responseParts (ask_attempts e n r) = responseParts r \<and>
   currentSegmentId (ask_attempts e n r) = currentSegmentId r \<and>
   currentSegmentText (ask_attempts e n r) = currentSegmentText r \<and>
   lastTextUpdate (ask_attempts e n r) = lastTextUpdate r \<and>
   queryCompleted (ask_attempts e n r) = queryCompleted r \<and>
   pendingTools (ask_attempts e n r) = pendingTools r \<and>
   timedOut (ask_attempts e n r) = timedOut r \<and>
   emitted (ask_attempts e n r) = emitted r \<and>
   clock_reads (ask_attempts e n r) = clock_reads r"
  by (induction n arbitrary: r) (simp_all add: Let_def)

lemma check_ask_user_frame:
  "sess (check_ask_user e n r) = sess r \<and> history (check_ask_user e n r) = history r \<and>
   responseParts (check_ask_user e n r) = responseParts r \<and>
   currentSegmentId (check_ask_user e n r) = currentSegmentId r \<and>
   currentSegmentText (check_ask_user e n r) = currentSegmentText r \<and>
   lastTextUpdate (check_ask_user e n r) = lastTextUpdate r \<and>
   queryCompleted (check_ask_user e n r) = queryCompleted r \<and>
   pendingTools (check_ask_user e n r) = pendingTools r \<and>
   timedOut (check_ask_user e n r) = timedOut r \<and>
   emitted (check_ask_user e n r) = emitted r \<and>
   clock_reads (check_ask_user e n r) = clock_reads r"
  using ask_attempts_frame [of e "Suc (Suc (Suc 0))" r]
  by (simp add: check_ask_user_def del: ask_attempts.simps)

subsection \<open>The query stays running inside the loop\<close>

lemma running_consume: "running r \<Longrightarrow> running (out_state (consume e r items))"
proof (rule loop_invariant [where P = running])
  show "running (process_tool_result e r b)" if "running r" for r b
    using that by (cases b) (auto simp: running_def step_defs Let_def split: option.splits)
  show "running (check_ask_user e n r)" if "running r" for r n
    using that by (simp add: running_def check_ask_user_frame)
qed (auto simp: running_def step_defs Let_def split: option.splits prod.splits)

subsection \<open>Segment ids\<close>

lemma seg_ids_snoc:
  "seg_ids (xs @ [x]) = seg_ids xs @ (case segmentId x of Some k \<Rightarrow> [k] | None \<Rightarrow> [])"
  by (simp add: seg_ids_def List.map_filter_def split: option.splits)

lemma seg_end_ids_snoc:
  "seg_end_ids (xs @ [x]) =
     seg_end_ids xs @
       (if kind x = SegmentEnd then (case segmentId x of Some k \<Rightarrow> [k] | None \<Rightarrow> []) else [])"
  by (simp add: seg_end_ids_def List.map_filter_def split: option.splits)

lemma seg_ids_Nil: "seg_ids [] = []" "seg_end_ids [] = []"
  by (simp_all add: seg_ids_def seg_end_ids_def List.map_filter_def)

lemma seg_ids_statusCallback:
  "seg_ids (emitted (statusCallback knd p seg t d r)) =
     seg_ids (emitted r) @ (case seg of Some n \<Rightarrow> [n] | None \<Rightarrow> [])"
  by (simp add: statusCallback_def seg_ids_snoc)

lemma seg_end_ids_statusCallback:
  "seg_end_ids (emitted (statusCallback knd p seg t d r)) =
     seg_end_ids (emitted r) @
       (if knd = SegmentEnd then (case seg of Some n \<Rightarrow> [n] | None \<Rightarrow> []) else [])"
  by (simp add: statusCallback_def seg_end_ids_snoc)

lemma statusCallback_frame:
  "sess (statusCallback knd p seg t d r) = sess r"
  "history (statusCallback knd p seg t d r) = history r"
  "responseParts (statusCallback knd p seg t d r) = responseParts r"
  "currentSegmentId (statusCallback knd p seg t d r) = currentSegmentId r"
  "currentSegmentText (statusCallback knd p seg t d r) = currentSegmentText r"
  "lastTextUpdate (statusCallback knd p seg t d r) = lastTextUpdate r"
  "queryCompleted (statusCallback knd p seg t d r) = queryCompleted r"
  "askUserTriggered (statusCallback knd p seg t d r) = askUserTriggered r"
  "pendingTools (statusCallback knd p seg t d r) = pendingTools r"
  "timedOut (statusCallback knd p seg t d r) = timedOut r"
  "clock_reads (statusCallback knd p seg t d r) = clock_reads r"
  "ask_calls (statusCallback knd p seg t d r) = ask_calls r"
  by (simp_all add: statusCallback_def)

lemma seg_ids_no_id:
  "seg_ids (emitted (statusCallback knd p None t d r)) = seg_ids (emitted r)"
  "seg_end_ids (emitted (statusCallback knd p None t d r)) = seg_end_ids (emitted r)"
  by (simp_all add: seg_ids_statusCallback seg_end_ids_statusCallback)

lemma seg_inv_no_id:
  assumes "seg_inv r"
  shows "seg_inv (statusCallback knd p None t d r)"
  using assms by (simp add: seg_inv_def seg_ids_no_id statusCallback_frame)

lemma seg_inv_frame:
  assumes "seg_inv r" "emitted r' = emitted r" "currentSegmentId r' = currentSegmentId r"
    "currentSegmentText r' = currentSegmentText r"
  shows "seg_inv r'"
  using assms by (simp add: seg_inv_def)

text \<open>Adding text to the open segment keeps the invariant.\<close>

lemma seg_inv_more_text:
  assumes "seg_inv r" "emitted r' = emitted r" "currentSegmentId r' = currentSegmentId r"
    "currentSegmentText r' = currentSegmentText r @ t"
  shows "seg_inv r'"
  using assms by (auto simp: seg_inv_def)

text \<open>A text update for the open segment, which is not empty, keeps the invariant.\<close>

lemma seg_inv_text_update:
  assumes inv: "seg_inv r" and open_text: "currentSegmentText r \<noteq> []"
  shows "seg_inv (statusCallback Text p (Some (currentSegmentId r)) None Awaited r)"
proof -
  let ?r = "statusCallback Text p (Some (currentSegmentId r)) None Awaited r"
  have ids: "seg_ids (emitted ?r) = seg_ids (emitted r) @ [currentSegmentId r]"
    by (simp add: seg_ids_statusCallback)
  have ends: "seg_end_ids (emitted ?r) = seg_end_ids (emitted r)"
    by (simp add: seg_end_ids_statusCallback)
  from inv have "sorted (seg_ids (emitted r) @ [currentSegmentId r])"
    by (simp add: seg_inv_def sorted_append)
  with inv open_text show ?thesis
    by (simp add: seg_inv_def ids ends statusCallback_frame)
qed

lemma seg_inv_text: "seg_inv r \<Longrightarrow> seg_inv (process_text e r t)"
proof -
  assume inv: "seg_inv r"
  let ?r2 = "r\<lparr>responseParts := responseParts r @ [t],
                currentSegmentText := currentSegmentText r @ t,
                clock_reads := Suc (clock_reads r)\<rparr>"
  have r2: "seg_inv ?r2"
    using inv by (rule seg_inv_more_text) simp_all
  show ?thesis
  proof (cases "Date_now e (clock_reads r) - lastTextUpdate r > STREAMING_THROTTLE_MS e \<and>
      length (currentSegmentText r @ t) > 20")
    case True
    then have "currentSegmentText ?r2 \<noteq> []" by auto
    with r2 have "seg_inv (statusCallback Text (currentSegmentText ?r2)
        (Some (currentSegmentId ?r2)) None Awaited ?r2)"
      by (rule seg_inv_text_update)
    then have "seg_inv ((statusCallback Text (currentSegmentText ?r2)
        (Some (currentSegmentId ?r2)) None Awaited ?r2)
          \<lparr>lastTextUpdate := Date_now e (clock_reads r)\<rparr>)"
      by (rule seg_inv_frame) simp_all
    with True show ?thesis
      by (simp add: process_text_def read_clock_def Let_def)
  next
    case False
    then have "process_text e r t = ?r2"
      by (auto simp: process_text_def read_clock_def Let_def)
    with r2 show ?thesis by simp
  qed
qed

lemma seg_inv_close: "seg_inv r \<Longrightarrow> seg_inv (close_segment r)"
proof (cases "currentSegmentText r = []")
  case True
  assume "seg_inv r"
  with True show ?thesis by (simp add: close_segment_def)
next
  case False
  assume inv: "seg_inv r"
  let ?r1 = "statusCallback SegmentEnd (currentSegmentText r) (Some (currentSegmentId r)) None
      FireAndForget r"
  let ?r2 = "?r1\<lparr>currentSegmentId := currentSegmentId r + 1, currentSegmentText := []\<rparr>"
  have ids: "seg_ids (emitted ?r2) = seg_ids (emitted r) @ [currentSegmentId r]"
    by (simp add: seg_ids_statusCallback)
  have ends: "seg_end_ids (emitted ?r2) = seg_end_ids (emitted r) @ [currentSegmentId r]"
    by (simp add: seg_end_ids_statusCallback)
  have cur: "currentSegmentId ?r2 = Suc (currentSegmentId r)" "currentSegmentText ?r2 = []"
    by simp_all
  have s1: "sorted (seg_ids (emitted r) @ [currentSegmentId r])"
    using inv by (simp add: seg_inv_def sorted_append)
  have s2: "sorted_wrt (<) (seg_end_ids (emitted r) @ [currentSegmentId r])"
    using inv by (simp add: seg_inv_def sorted_wrt_append)
  have b1: "\<forall>n \<in> set (seg_ids (emitted r) @ [currentSegmentId r]). n \<le> Suc (currentSegmentId r)"
    using inv by (auto simp: seg_inv_def intro: le_SucI)
  have b2: "\<forall>n \<in> set (seg_end_ids (emitted r) @ [currentSegmentId r]). n < Suc (currentSegmentId r)"
    using inv by (auto simp: seg_inv_def intro: less_SucI)
  have b3: "\<forall>n \<in> set (seg_ids (emitted r) @ [currentSegmentId r]).
      n \<in> set (seg_end_ids (emitted r) @ [currentSegmentId r])"
    using inv by (auto simp: seg_inv_def)
  have "seg_inv ?r2"
    unfolding seg_inv_def ids ends cur using s1 s2 b1 b2 b3 by blast
  with False show ?thesis by (simp add: close_segment_def)
qed

lemma show_tool_frame:
  "currentSegmentId (show_tool r n i u) = currentSegmentId r"
  "currentSegmentText (show_tool r n i u) = currentSegmentText r"
  "responseParts (show_tool r n i u) = responseParts r"
  "askUserTriggered (show_tool r n i u) = askUserTriggered r"
  "timedOut (show_tool r n i u) = timedOut r"
  "queryCompleted (show_tool r n i u) = queryCompleted r"
  "history (show_tool r n i u) = history r"
  by (simp_all add: show_tool_def statusCallback_def Let_def split: option.splits)

lemma show_tool_emitted:
  "emitted (show_tool r n i u) =
     (if startsWith n ''mcp__ask-user'' then emitted r
      else emitted r @ [\<lparr>kind = Tool, payload = formatToolStatus n i, segmentId = None,
                          toolId = u, dispatch = FireAndForget\<rparr>])"
  by (simp add: show_tool_def statusCallback_def Let_def split: option.splits)

lemma seg_ids_show_tool:
  "seg_ids (emitted (show_tool r n i u)) = seg_ids (emitted r)"
  "seg_end_ids (emitted (show_tool r n i u)) = seg_end_ids (emitted r)"
  by (simp_all add: show_tool_emitted seg_ids_snoc seg_end_ids_snoc)

lemma seg_inv_show: "seg_inv r \<Longrightarrow> seg_inv (show_tool r n i u)"
  by (simp add: seg_inv_def seg_ids_show_tool show_tool_frame)

lemma process_tool_result_frame:
  "sess (process_tool_result e r b) = sess r"
  "currentSegmentId (process_tool_result e r b) = currentSegmentId r"
  "currentSegmentText (process_tool_result e r b) = currentSegmentText r"
  "responseParts (process_tool_result e r b) = responseParts r"
  "askUserTriggered (process_tool_result e r b) = askUserTriggered r"
  "timedOut (process_tool_result e r b) = timedOut r"
  "queryCompleted (process_tool_result e r b) = queryCompleted r"
  "history (process_tool_result e r b) = history r"
  by (cases b; simp add: statusCallback_def Let_def split: option.splits)+

lemma seg_ids_tool_result:
  "seg_ids (emitted (process_tool_result e r b)) = seg_ids (emitted r)"
  "seg_end_ids (emitted (process_tool_result e r b)) = seg_end_ids (emitted r)"
  by (cases b; simp add: Let_def seg_ids_no_id split: option.splits)+

lemma seg_inv_result: "seg_inv r \<Longrightarrow> seg_inv (process_tool_result e r b)"
  by (simp add: seg_inv_def seg_ids_tool_result process_tool_result_frame)

lemma capture_session_id_frame:
  "emitted (capture_session_id e r ev) = emitted r"
  "currentSegmentId (capture_session_id e r ev) = currentSegmentId r"
  "currentSegmentText (capture_session_id e r ev) = currentSegmentText r"
  "responseParts (capture_session_id e r ev) = responseParts r"
  "askUserTriggered (capture_session_id e r ev) = askUserTriggered r"
  "timedOut (capture_session_id e r ev) = timedOut r"
  "queryCompleted (capture_session_id e r ev) = queryCompleted r"
  "pendingTools (capture_session_id e r ev) = pendingTools r"
  by (simp_all add: capture_session_id_def saveSession_def read_clock_def Let_def
      split: option.splits prod.splits)

lemma seg_inv_consume: "seg_inv r \<Longrightarrow> seg_inv (out_state (consume e r items))"
proof (rule loop_invariant [where P = seg_inv])
  show "seg_inv (process_thinking r t)" if "seg_inv r" for r t
    using that by (simp add: process_thinking_def seg_inv_no_id)
  show "seg_inv (check_ask_user e n r)" if "seg_inv r" for r n
    using that by (rule seg_inv_frame) (simp_all add: check_ask_user_frame)
  show "seg_inv (capture_session_id e r ev)" if "seg_inv r" for r ev
    using that by (rule seg_inv_frame) (simp_all add: capture_session_id_frame)
  show "seg_inv (complete_query u r)" if "seg_inv r" for r u
    using that by (rule seg_inv_frame) (simp_all add: complete_query_def)
  show "seg_inv (stop_call r)" if "seg_inv r" for r
    using that by (rule seg_inv_frame) (simp_all add: stop_call_def)
  show "seg_inv (timer_fires r)" if "seg_inv r" for r
    using that by (rule seg_inv_frame) (simp_all add: timer_fires_def)
qed (simp_all add: seg_inv_no_id seg_inv_text seg_inv_close seg_inv_show seg_inv_result)

subsection \<open>The parts of a call\<close>

lemma finish_emitted: "emitted (fst (finish e r)) = emitted r @ closing r"
  by (simp add: finish_def read_clock_def statusCallback_def closing_def flush_emission_def
      notice_emissions_def done_emission_def Let_def)

lemma finish_returned: "snd (finish e r) = response r"
  by (simp add: finish_def read_clock_def statusCallback_def response_def Let_def)

lemma finish_frame:
  "askUserTriggered (fst (finish e r)) = askUserTriggered r"
  "timedOut (fst (finish e r)) = timedOut r"
  "responseParts (fst (finish e r)) = responseParts r"
  "currentSegmentId (fst (finish e r)) = currentSegmentId r"
  "currentSegmentText (fst (finish e r)) = currentSegmentText r"
  "history (fst (finish e r)) = history r"
  by (simp_all add: finish_def read_clock_def statusCallback_def Let_def)

lemma cleanup_frame:
  "emitted (cleanup r) = emitted r"
  "askUserTriggered (cleanup r) = askUserTriggered r"
  "timedOut (cleanup r) = timedOut r"
  "responseParts (cleanup r) = responseParts r"
  "currentSegmentId (cleanup r) = currentSegmentId r"
  "currentSegmentText (cleanup r) = currentSegmentText r"
  "history (cleanup r) = history r"
  by (simp_all add: cleanup_def)

lemma closing_cleanup: "closing (cleanup r) = closing r"
  by (simp add: closing_def cleanup_frame flush_emission_def notice_emissions_def)

lemma response_cleanup: "response (cleanup r) = response r"
  by (simp add: response_def cleanup_frame)

lemma out_state_event_loop:
  "out_state (event_loop e r items ending) = out_state (consume e r items)"
  by (cases "consume e r items"; cases ending) (simp_all add: event_loop_def)

lemma event_loop_not_Continue: "event_loop e r items ending \<noteq> Continue r1"
  by (cases "consume e r items"; cases ending) (simp_all add: event_loop_def)

text \<open>What \<open>prepare\<close> leaves: the stream is not opened, or it is opened in a fresh
  state.\<close>

lemma prepare_Inl:
  assumes "prepare e s h message = Inl res"
  shows "emitted (final res) = []" "opened res = None"
    "returned res = Inl ''Error: Query cancelled''" "stopRequested s"
    "\<not> stopRequested (sess (final res))"
  using assms
  by (auto simp: prepare_def start_state_def read_clock_def Let_def
      split: if_splits prod.splits)

lemma prepare_Inr:
  assumes "prepare e s h message = Inr (r, opts)"
  shows "emitted r = []" "currentSegmentId r = 0" "currentSegmentText r = []"
    "responseParts r = []" "\<not> askUserTriggered r" "\<not> timedOut r" "\<not> queryCompleted r"
    "pendingTools r = Map.empty" "isQueryRunning (sess r)" "abortController (sess r) = Some False"
    "\<not> stopRequested (sess r)" "\<not> stopRequested s" "history r = h"
  using assms
  by (auto simp: prepare_def start_state_def read_clock_def Let_def
      split: if_splits prod.splits)

lemma prepare_opened:
  assumes "\<not> stopRequested s"
  shows "\<exists>r0 opts. prepare e s h message = Inr (r0, opts)"
  using assms
  by (simp add: prepare_def start_state_def read_clock_def Let_def case_prod_beta)

lemma demo_alive:
  assumes "prepare demo_env demo_session [] ''hello'' = Inr (r0, opts)"
    and "case consume demo_env demo_opened items of Continue r \<Rightarrow> True | _ \<Rightarrow> False"
  shows "consume demo_env r0 items = Continue (demo_after items)"
proof -
  from assms(1) have r0: "demo_opened = r0" by (simp add: demo_opened_def)
  with assms(2) show ?thesis
    by (cases "consume demo_env r0 items") (simp_all add: demo_after_def)
qed

lemma demo_prepared:
  "\<exists>r0 opts. prepare demo_env demo_session [] ''hello'' = Inr (r0, opts)"
  by (rule prepare_opened) (simp add: demo_session_def new_session_def)

text \<open>The three ways a call goes: cancelled before the stream is opened, failed with
  the error of the loop, or finished after the loop.\<close>

lemma send_cases [consumes 0, case_names Cancelled Failed Finished]:
  obtains
    (Cancelled) res where "prepare e s h message = Inl res"
      "sendMessageStreaming e s h message items ending = res"
  | (Failed) r0 opts r1 err where "prepare e s h message = Inr (r0, opts)"
      "event_loop e r0 items ending = Thrown r1 err" "\<not> suppressed r1 err"
      "emitted (final (sendMessageStreaming e s h message items ending)) = emitted r1"
      "returned (sendMessageStreaming e s h message items ending) = Inl err"
      "opened (sendMessageStreaming e s h message items ending) = Some opts"
  | (Finished) r0 opts r1 where "prepare e s h message = Inr (r0, opts)"
      "r1 = out_state (event_loop e r0 items ending)"
      "\<forall>err. event_loop e r0 items ending = Thrown r1 err \<longrightarrow> suppressed r1 err"
      "final (sendMessageStreaming e s h message items ending) = fst (finish e (cleanup r1))"
      "returned (sendMessageStreaming e s h message items ending) = Inr (response r1)"
      "opened (sendMessageStreaming e s h message items ending) = Some opts"
proof (cases "prepare e s h message")
  case (Inl res)
  then show ?thesis
    by (intro Cancelled [of res]) (simp_all add: sendMessageStreaming_def)
next
  case (Inr p)
  obtain r0 opts where p: "p = (r0, opts)" by (cases p)
  show ?thesis
  proof (cases "event_loop e r0 items ending")
    case (Continue r1)
    then show ?thesis by (simp add: event_loop_not_Continue)
  next
    case (Exit r1)
    with Inr p show ?thesis
      by (intro Finished [of r0 opts r1])
        (simp_all add: sendMessageStreaming_def run_query_def finish_returned
          response_cleanup case_prod_beta)
  next
    case (Thrown r1 err)
    show ?thesis
    proof (cases "suppressed r1 err")
      case True
      with Inr p Thrown show ?thesis
        by (intro Finished [of r0 opts r1])
          (simp_all add: sendMessageStreaming_def run_query_def finish_returned
            response_cleanup case_prod_beta)
    next
      case False
      with Inr p Thrown show ?thesis
        by (intro Failed [of r0 opts r1 err])
          (simp_all add: sendMessageStreaming_def run_query_def read_clock_def cleanup_def
            case_prod_beta)
    qed
  qed
qed

subsection \<open>Segment ids over a whole call\<close>

lemma seg_ids_append:
  "seg_ids (xs @ ys) = seg_ids xs @ seg_ids ys"
  "seg_end_ids (xs @ ys) = seg_end_ids xs @ seg_end_ids ys"
  by (simp_all add: seg_ids_def seg_end_ids_def List.map_filter_def)

lemma seg_ids_Cons:
  "seg_ids (x # xs) = (case segmentId x of Some n \<Rightarrow> [n] | None \<Rightarrow> []) @ seg_ids xs"
  by (simp add: seg_ids_def List.map_filter_def split: option.splits)

lemma seg_id_in_seg_ids:
  assumes "x \<in> set ems" "segmentId x = Some n"
  shows "n \<in> set (seg_ids ems)"
  using assms by (force simp: seg_ids_def List.map_filter_def)

lemma seg_end_ids_Cons_end:
  "kind x = SegmentEnd \<Longrightarrow> segmentId x = Some m \<Longrightarrow>
   seg_end_ids (x # ems) = m # seg_end_ids ems"
  by (simp add: seg_end_ids_def List.map_filter_def)

lemma seg_end_ids_Cons_other:
  "kind x \<noteq> SegmentEnd \<or> segmentId x = None \<Longrightarrow> seg_end_ids (x # ems) = seg_end_ids ems"
  by (auto simp: seg_end_ids_def List.map_filter_def)

lemma segment_end_count_eq: "segment_end_count ems n = count_list (seg_end_ids ems) n"
proof (induction ems)
  case Nil
  then show ?case by (simp add: segment_end_count_def seg_ids_Nil)
next
  case (Cons x ems)
  show ?case
  proof (cases "kind x = SegmentEnd \<and> segmentId x \<noteq> None")
    case True
    then obtain m where m: "kind x = SegmentEnd" "segmentId x = Some m" by auto
    then have "seg_end_ids (x # ems) = m # seg_end_ids ems"
      by (rule seg_end_ids_Cons_end)
    with Cons m show ?thesis by (simp add: segment_end_count_def)
  next
    case False
    then have "seg_end_ids (x # ems) = seg_end_ids ems"
      by (intro seg_end_ids_Cons_other) auto
    with Cons False show ?thesis by (auto simp: segment_end_count_def)
  qed
qed

lemma count_list_strict_sorted:
  assumes "sorted_wrt (<) (xs :: nat list)"
  shows "count_list xs n = (if n \<in> set xs then 1 else 0)"
  using assms by (induction xs) auto

lemma closing_ids:
  assumes "\<not> askUserTriggered r"
  shows "seg_ids (closing r) =
      (if currentSegmentText r \<noteq> [] then [currentSegmentId r] else []) @
      (if timedOut r then [Suc (currentSegmentId r), Suc (currentSegmentId r)] else [])"
    and "seg_end_ids (closing r) =
      (if currentSegmentText r \<noteq> [] then [currentSegmentId r] else []) @
      (if timedOut r then [Suc (currentSegmentId r)] else [])"
  using assms
  by (simp_all add: closing_def flush_emission_def notice_emissions_def done_emission_def
      seg_ids_def seg_end_ids_def List.map_filter_def)

lemma closing_ids_ask:
  assumes "askUserTriggered r"
  shows "seg_ids (closing r) = []" "seg_end_ids (closing r) = []"
  using assms
  by (simp_all add: closing_def done_emission_def seg_ids_def seg_end_ids_def
      List.map_filter_def)

lemma seg_inv_closing:
  assumes inv: "seg_inv r"
  shows "sorted (seg_ids (emitted r @ closing r))"
    and "sorted_wrt (<) (seg_end_ids (emitted r @ closing r))"
    and "\<not> askUserTriggered r \<Longrightarrow>
      set (seg_ids (emitted r @ closing r)) \<subseteq> set (seg_end_ids (emitted r @ closing r))"
proof -
  let ?I = "seg_ids (emitted r)" and ?E = "seg_end_ids (emitted r)"
  let ?c = "currentSegmentId r"
  from inv have I: "sorted ?I" "\<forall>n \<in> set ?I. n \<le> ?c"
    and E: "sorted_wrt (<) ?E" "\<forall>n \<in> set ?E. n < ?c"
    and C: "\<forall>n \<in> set ?I. n \<in> set ?E \<or> (n = ?c \<and> currentSegmentText r \<noteq> [])"
    by (simp_all add: seg_inv_def)
  have I1: "sorted (?I @ [?c])" using I by (simp add: sorted_append)
  have I2: "sorted (?I @ [Suc ?c, Suc ?c])" using I by (auto simp: sorted_append)
  have I3: "sorted (?I @ [?c, Suc ?c, Suc ?c])" using I by (auto simp: sorted_append)
  have E1: "sorted_wrt (<) (?E @ [?c])" using E by (simp add: sorted_wrt_append)
  have E2: "sorted_wrt (<) (?E @ [Suc ?c])" using E by (auto simp: sorted_wrt_append)
  have E3: "sorted_wrt (<) (?E @ [?c, Suc ?c])" using E by (auto simp: sorted_wrt_append)
  show "sorted (seg_ids (emitted r @ closing r))"
  proof (cases "askUserTriggered r")
    case True
    with I show ?thesis by (simp add: seg_ids_append closing_ids_ask)
  next
    case False
    with I I1 I2 I3 show ?thesis
      by (cases "currentSegmentText r = []"; cases "timedOut r")
        (simp_all add: seg_ids_append closing_ids)
  qed
  show "sorted_wrt (<) (seg_end_ids (emitted r @ closing r))"
  proof (cases "askUserTriggered r")
    case True
    with E show ?thesis by (simp add: seg_ids_append closing_ids_ask)
  next
    case False
    with E E1 E2 E3 show ?thesis
      by (cases "currentSegmentText r = []"; cases "timedOut r")
        (simp_all add: seg_ids_append closing_ids)
  qed
  show "set (seg_ids (emitted r @ closing r)) \<subseteq> set (seg_end_ids (emitted r @ closing r))"
    if "\<not> askUserTriggered r"
    using that C
    by (cases "currentSegmentText r = []"; cases "timedOut r")
      (auto simp: seg_ids_append closing_ids)
qed

lemma seg_inv_start:
  assumes "emitted r = []"
  shows "seg_inv r"
  using assms by (simp add: seg_inv_def seg_ids_Nil)

text \<open>The three facts about the segment ids of the status updates of a call.\<close>

lemma send_segment_ids:
  fixes e s h message items ending
  defines "res \<equiv> sendMessageStreaming e s h message items ending"
  shows "sorted (seg_ids (emitted (final res)))"
    and "sorted_wrt (<) (seg_end_ids (emitted (final res)))"
    and "\<lbrakk>returned res = Inr t; \<not> askUserTriggered (final res)\<rbrakk> \<Longrightarrow>
      set (seg_ids (emitted (final res))) \<subseteq> set (seg_end_ids (emitted (final res)))"
proof -
  have "sorted (seg_ids (emitted (final res))) \<and>
      sorted_wrt (<) (seg_end_ids (emitted (final res))) \<and>
      (returned res = Inr t \<and> \<not> askUserTriggered (final res) \<longrightarrow>
        set (seg_ids (emitted (final res))) \<subseteq> set (seg_end_ids (emitted (final res))))"
  proof (cases rule: send_cases [of e s h message items ending])
    case (Cancelled res')
    then show ?thesis
      using prepare_Inl(1) [OF Cancelled(1)] by (simp add: res_def seg_ids_Nil)
  next
    case (Failed r0 opts r1 err)
    from prepare_Inr(1) [OF Failed(1)] have "seg_inv r0" by (rule seg_inv_start)
    then have "seg_inv (out_state (consume e r0 items))" by (rule seg_inv_consume)
    with Failed(2) have "seg_inv r1"
      using out_state_event_loop [of e r0 items ending] by simp
    with Failed show ?thesis by (simp add: res_def seg_inv_def)
  next
    case (Finished r0 opts r1)
    from prepare_Inr(1) [OF Finished(1)] have "seg_inv r0" by (rule seg_inv_start)
    then have "seg_inv (out_state (consume e r0 items))" by (rule seg_inv_consume)
    with Finished(2) have "seg_inv r1" by (simp add: out_state_event_loop)
    then have inv: "seg_inv (cleanup r1)"
      by (rule seg_inv_frame) (simp_all add: cleanup_frame)
    have ems: "emitted (final res) = emitted (cleanup r1) @ closing (cleanup r1)"
      using Finished(4) by (simp add: res_def finish_emitted)
    have ask: "askUserTriggered (final res) = askUserTriggered (cleanup r1)"
      using Finished(4) by (simp add: res_def finish_frame)
    from seg_inv_closing [OF inv] show ?thesis
      unfolding ems ask by blast
  qed
  then show "sorted (seg_ids (emitted (final res)))"
    and "sorted_wrt (<) (seg_end_ids (emitted (final res)))"
    and "\<lbrakk>returned res = Inr t; \<not> askUserTriggered (final res)\<rbrakk> \<Longrightarrow>
      set (seg_ids (emitted (final res))) \<subseteq> set (seg_end_ids (emitted (final res)))"
    by blast+
qed

lemma sorted_ids_before:
  assumes "sorted (seg_ids ems)" "ems = xs @ x # ys" "segmentId x = Some n"
    "y \<in> set xs" "segmentId y = Some m"
  shows "m \<le> n"
proof -
  from assms(4,5) have "m \<in> set (seg_ids xs)"
    by (force simp: seg_ids_def List.map_filter_def)
  moreover have "seg_ids ems = seg_ids xs @ n # seg_ids ys"
    using assms(2,3) by (simp add: seg_ids_append seg_ids_Cons)
  ultimately show ?thesis
    using assms(1) by (simp add: sorted_append)
qed

lemma seg_end_id_has_end:
  assumes "k \<in> set (seg_end_ids ems)"
  shows "\<exists>x \<in> set ems. kind x = SegmentEnd \<and> segmentId x = Some k"
  using assms by (auto simp: seg_end_ids_def List.map_filter_def)

lemma sorted_ids_after:
  assumes "sorted (seg_ids ems)" "ems = xs @ y # ys" "segmentId y = Some m"
    "x \<in> set ys" "segmentId x = Some k"
  shows "m \<le> k"
proof -
  from assms(4,5) have "k \<in> set (seg_ids ys)"
    by (rule seg_id_in_seg_ids)
  moreover have "seg_ids ems = seg_ids xs @ m # seg_ids ys"
    using assms(2,3) by (simp add: seg_ids_append seg_ids_Cons)
  ultimately show ?thesis
    using assms(1) by (simp add: sorted_append)
qed

lemma seg_inv_closed_below:
  assumes "seg_inv r" "k \<in> set (seg_ids (emitted r))" "m \<in> set (seg_ids (emitted r))" "k < m"
  shows "k \<in> set (seg_end_ids (emitted r))"
proof -
  from assms(1,3) have "m \<le> currentSegmentId r" by (simp add: seg_inv_def)
  with assms(4) have "k \<noteq> currentSegmentId r" by simp
  moreover from assms(1,2) have "k \<in> set (seg_end_ids (emitted r)) \<or>
      (k = currentSegmentId r \<and> currentSegmentText r \<noteq> [])"
    by (simp add: seg_inv_def)
  ultimately show ?thesis by blast
qed

lemma send_closed_below:
  fixes e s h message items ending
  defines "ems \<equiv> emitted (final (sendMessageStreaming e s h message items ending))"
  assumes "k \<in> set (seg_ids ems)" "m \<in> set (seg_ids ems)" "k < m"
  shows "k \<in> set (seg_end_ids ems)"
proof (cases rule: send_cases [of e s h message items ending])
  case (Cancelled res)
  with assms(2) show ?thesis
    using prepare_Inl(1) [OF Cancelled(1)] by (simp add: ems_def seg_ids_Nil)
next
  case (Failed r0 opts r1 err)
  from prepare_Inr(1) [OF Failed(1)] have "seg_inv r0" by (rule seg_inv_start)
  then have "seg_inv (out_state (consume e r0 items))" by (rule seg_inv_consume)
  with Failed(2) have "seg_inv r1"
    using out_state_event_loop [of e r0 items ending] by simp
  moreover have "ems = emitted r1" using Failed(4) by (simp add: ems_def)
  ultimately show ?thesis
    using assms(2-4) by (simp add: seg_inv_closed_below)
next
  case (Finished r0 opts r1)
  from prepare_Inr(1) [OF Finished(1)] have "seg_inv r0" by (rule seg_inv_start)
  then have "seg_inv (out_state (consume e r0 items))" by (rule seg_inv_consume)
  with Finished(2) have inv: "seg_inv r1" by (simp add: out_state_event_loop)
  have ems: "ems = emitted r1 @ closing r1"
    using Finished(4) by (simp add: ems_def finish_emitted cleanup_frame closing_cleanup)
  show ?thesis
  proof (cases "askUserTriggered r1")
    case True
    then have "seg_ids ems = seg_ids (emitted r1)" "seg_end_ids ems = seg_end_ids (emitted r1)"
      by (simp_all add: ems seg_ids_append closing_ids_ask)
    with inv assms(2-4) show ?thesis by (simp add: seg_inv_closed_below)
  next
    case False
    from seg_inv_closing(3) [OF inv False] assms(2) show ?thesis
      unfolding ems by blast
  qed
qed

text \<open>
  C5, as the code has it. Over the status updates of one call, in the order they are
  made: the segment ids they carry never decrease; no segment id has more than one
  \<open>segment_end\<close>; a segment whose id is carried by an update has had its
  \<open>segment_end\<close> before any update carries a greater id, so that every carried id
  but the greatest has exactly one \<open>segment_end\<close>; and when the call returns its
  text and no ask-user request was triggered, every segment id carried by an update
  has exactly one \<open>segment_end\<close>.
\<close>

theorem segment_ids_of_call:
  "let ems = emitted (final (sendMessageStreaming e s h message items ending)) in
     sorted (seg_ids ems) \<and>
     (\<forall>n. segment_end_count ems n \<le> 1) \<and>
     (\<forall>xs y ys m k. ems = xs @ y # ys \<and> segmentId y = Some m \<and> k < m \<and>
        k \<in> set (seg_ids ems) \<longrightarrow>
        (\<exists>x \<in> set xs. kind x = SegmentEnd \<and> segmentId x = Some k)) \<and>
     ((\<exists>t. returned (sendMessageStreaming e s h message items ending) = Inr t) \<and>
      \<not> askUserTriggered (final (sendMessageStreaming e s h message items ending)) \<longrightarrow>
        (\<forall>n \<in> set (seg_ids ems). segment_end_count ems n = 1)) \<and>
     (\<forall>k \<in> set (seg_ids ems). \<forall>m \<in> set (seg_ids ems).
        k < m \<longrightarrow> segment_end_count ems k = 1)"
proof -
  let ?res = "sendMessageStreaming e s h message items ending"
  let ?ems = "emitted (final ?res)"
  note facts = send_segment_ids [of e s h message items ending]
  have a: "sorted (seg_ids ?ems)" by (rule facts(1))
  have b: "segment_end_count ?ems n \<le> 1" for n
    using facts(2) by (simp add: segment_end_count_eq count_list_strict_sorted)
  have c: "\<exists>x \<in> set xs. kind x = SegmentEnd \<and> segmentId x = Some k"
    if split: "?ems = xs @ y # ys" and y: "segmentId y = Some m" and less: "k < m"
      and carried: "k \<in> set (seg_ids ?ems)"
    for xs y ys m k
  proof -
    have "y \<in> set ?ems" unfolding split by simp
    then have m: "m \<in> set (seg_ids ?ems)" using y by (rule seg_id_in_seg_ids)
    from carried m less have "k \<in> set (seg_end_ids ?ems)"
      by (rule send_closed_below)
    then obtain x where x: "x \<in> set ?ems" "kind x = SegmentEnd" "segmentId x = Some k"
      using seg_end_id_has_end by blast
    from x(1) have "x \<in> set xs \<or> x = y \<or> x \<in> set ys" unfolding split by auto
    moreover have "x \<noteq> y" using x(3) y less by auto
    moreover have "x \<notin> set ys"
    proof
      assume "x \<in> set ys"
      with a split y have "m \<le> k" using x(3) by (rule sorted_ids_after)
      with less show False by simp
    qed
    ultimately have "x \<in> set xs" by blast
    with x(2,3) show ?thesis by blast
  qed
  have d: "segment_end_count ?ems n = 1"
    if "returned ?res = Inr t" "\<not> askUserTriggered (final ?res)" "n \<in> set (seg_ids ?ems)"
    for t n
  proof -
    from facts(3) [OF that(1,2)] that(3) have "n \<in> set (seg_end_ids ?ems)" by blast
    with facts(2) show ?thesis
      by (simp add: segment_end_count_eq count_list_strict_sorted)
  qed
  have e: "segment_end_count ?ems k = 1"
    if "k \<in> set (seg_ids ?ems)" "m \<in> set (seg_ids ?ems)" "k < m" for k m
  proof -
    from that have "k \<in> set (seg_end_ids ?ems)" by (rule send_closed_below)
    with facts(2) show ?thesis
      by (simp add: segment_end_count_eq count_list_strict_sorted)
  qed
  from a b c d e show ?thesis
    unfolding Let_def by blast
qed

theorem segment_ids_of_call_witness:
  "sorted (seg_ids (emitted (final (demo_call demo_tool_stream Ends)))) \<and>
   seg_ids (emitted (final (demo_call demo_tool_stream Ends))) = [0, 0, 1, 1] \<and>
   segment_end_count (emitted (final (demo_call demo_tool_stream Ends))) 0 = 1 \<and>
   segment_end_count (emitted (final (demo_call demo_tool_stream Ends))) 1 = 1 \<and>
   segmentId (emitted (final (demo_call demo_tool_stream Ends)) ! 4) = Some 1 \<and>
   list_ex (\<lambda>x. kind x = SegmentEnd \<and> segmentId x = Some 0)
     (take 4 (emitted (final (demo_call demo_tool_stream Ends))))"
proof -
  let ?ems = "emitted (final (demo_call demo_tool_stream Ends))"
  have "\<not> isl (returned (demo_call demo_tool_stream Ends))"
    by code_simp
  then have ret: "\<exists>t. returned (demo_call demo_tool_stream Ends) = Inr t"
    by (cases "returned (demo_call demo_tool_stream Ends)") simp_all
  have ask: "\<not> askUserTriggered (final (demo_call demo_tool_stream Ends))"
    by code_simp
  have ids: "seg_ids ?ems = [0, 0, 1, 1]"
    by code_simp
  have "4 < length ?ems"
    by code_simp
  then have split: "?ems = take 4 ?ems @ ?ems ! 4 # drop (Suc 4) ?ems"
    by (rule id_take_nth_drop)
  have later: "segmentId (?ems ! 4) = Some 1"
    by code_simp
  have carried: "(0::nat) < 1 \<and> 0 \<in> set (seg_ids ?ems)"
    by (simp add: ids)
  note facts = segment_ids_of_call [of demo_env demo_session "[]" "''hello''" demo_tool_stream
      Ends, folded demo_call_def, unfolded Let_def]
  from facts ret ask ids
  have counts: "sorted (seg_ids ?ems) \<and> segment_end_count ?ems 0 = 1 \<and>
      segment_end_count ?ems 1 = 1"
    by simp
  from facts [THEN conjunct2, THEN conjunct2, THEN conjunct1] split later carried
  have "\<exists>x \<in> set (take 4 ?ems). kind x = SegmentEnd \<and> segmentId x = Some 0"
    by blast
  then have "list_ex (\<lambda>x. kind x = SegmentEnd \<and> segmentId x = Some 0) (take 4 ?ems)"
    by (simp add: list_ex_iff)
  with counts ids later show ?thesis by blast
qed

text \<open>
  The claim C5 as the specification words it, exactly one \<open>segment_end\<close> for every
  segment id, fails in two ways. When an ask-user tool is followed by text in the same
  message, the call returns at once and the segment the text opened is never closed.
  When the stream fails while a segment is open, the call fails and that segment is
  never closed.
\<close>

theorem segment_end_exactly_once_counterexample:
  "returned (demo_call demo_ask_stream Ends) = Inr ''[Waiting for user selection]'' \<and>
   map kind (emitted (final (demo_call demo_ask_stream Ends))) = [Text, Done] \<and>
   seg_ids (emitted (final (demo_call demo_ask_stream Ends))) = [0] \<and>
   segment_end_count (emitted (final (demo_call demo_ask_stream Ends))) 0 = 0 \<and>
   returned (demo_call (take 3 demo_tool_stream) (Throws ''Error: connection lost'')) =
     Inl ''Error: connection lost'' \<and>
   map (\<lambda>x. (kind x, segmentId x))
     (emitted (final (demo_call (take 3 demo_tool_stream) (Throws ''Error: connection lost'')))) =
     [(Text, Some 0), (SegmentEnd, Some 0), (Tool, None), (ToolDone, None), (Text, Some 1)] \<and>
   segment_end_count
     (emitted (final (demo_call (take 3 demo_tool_stream) (Throws ''Error: connection lost''))))
     1 = 0"
  by code_simp

subsection \<open>Streams in two parts\<close>

lemma startsWith_iff: "startsWith s p \<longleftrightarrow> (\<exists>q. s = p @ q)"
  unfolding startsWith_def by (metis append_eq_conv_conj append_take_drop_id)

lemma process_blocks_append:
  "process_blocks e r (bs @ cs) =
     (case process_blocks e r bs of
        Continue r1 \<Rightarrow> process_blocks e r1 cs
      | out \<Rightarrow> out)"
proof (induction bs arbitrary: r)
  case Nil
  then show ?case by simp
next
  case (Cons b bs)
  then show ?case
    by (cases "process_block e r b") simp_all
qed

lemma consume_append:
  "consume e r (xs @ ys) =
     (case consume e r xs of
        Continue r1 \<Rightarrow> consume e r1 ys
      | out \<Rightarrow> out)"
proof (induction xs arbitrary: r)
  case Nil
  then show ?case by simp
next
  case (Cons i xs)
  show ?case
  proof (cases i)
    case (Ev ev)
    with Cons show ?thesis
      by (cases "process_event e r ev") simp_all
  next
    case StopCall
    with Cons show ?thesis by simp
  next
    case TimerFires
    with Cons show ?thesis by simp
  qed
qed

subsection \<open>The safety checks\<close>

lemma safety_check_forms:
  assumes "safety_check e toolName toolInput = Some (status, err)"
  shows "(\<exists>reason. status = ''BLOCKED: '' @ reason \<and>
            err = ''Error: Unsafe command blocked: '' @ reason) \<or>
         (\<exists>filePath. status = ''Access denied: '' @ filePath \<and>
            err = ''Error: File access blocked: '' @ filePath)"
  using assms by (auto simp: safety_check_def split: option.splits)

lemma unsafe_command_not_Bash:
  "toolName \<noteq> ''Bash'' \<Longrightarrow> unsafe_command e toolName toolInput = None"
  by (simp add: unsafe_command_def)

text \<open>
  C10. A \<open>Read\<close> whose file path starts with one of the temp paths or contains
  \<open>/.claude/\<close> passes the safety checks and is processed, whatever \<open>isPathAllowed\<close>
  says of the path. A \<open>Write\<close> or an \<open>Edit\<close> that names a file path outside the
  allowed paths is blocked, whatever the temp paths are: the status \<open>Access denied\<close> is
  shown and the error \<open>File access blocked\<close> is raised.
\<close>

theorem read_exemption:
  "(toolName = ''Read'' \<and>
    ((\<exists>p \<in> set (TEMP_PATHS e). \<exists>q. field_or toolInput ''file_path'' [] = p @ q) \<or>
     (\<exists>p q. field_or toolInput ''file_path'' [] = p @ ''/.claude/'' @ q))
      \<longrightarrow> safety_check e toolName toolInput = None \<and>
          process_tool_use e r toolName toolInput toolUseId =
            Continue (check_ask_user e toolName
              (show_tool (close_segment r) toolName toolInput toolUseId))) \<and>
   ((toolName = ''Write'' \<or> toolName = ''Edit'') \<and>
    field_or toolInput ''file_path'' [] = filePath \<and> filePath \<noteq> [] \<and>
    \<not> isPathAllowed e filePath
      \<longrightarrow> process_tool_use e r toolName toolInput toolUseId =
            Thrown (statusCallback Tool (''Access denied: '' @ filePath) None None Awaited r)
              (''Error: File access blocked: '' @ filePath))"
proof -
  have exempt: "safety_check e toolName toolInput = None"
    if "toolName = ''Read''"
      and "(\<exists>p \<in> set (TEMP_PATHS e). \<exists>q. field_or toolInput ''file_path'' [] = p @ q) \<or>
        (\<exists>p q. field_or toolInput ''file_path'' [] = p @ ''/.claude/'' @ q)"
  proof -
    from that(2) have "isTmpRead e ''Read'' (field_or toolInput ''file_path'' [])"
      by (simp add: isTmpRead_def list_ex_iff startsWith_iff str_includes_iff)
    with that(1) show ?thesis
      by (simp add: safety_check_def unsafe_command_def denied_path_def Let_def)
  qed
  have denied: "safety_check e toolName toolInput =
      Some (''Access denied: '' @ filePath, ''Error: File access blocked: '' @ filePath)"
    if "toolName = ''Write'' \<or> toolName = ''Edit''"
      and "field_or toolInput ''file_path'' [] = filePath" "filePath \<noteq> []"
      and "\<not> isPathAllowed e filePath"
    using that
    by (auto simp: safety_check_def unsafe_command_def denied_path_def isTmpRead_def Let_def)
  show ?thesis
    using exempt denied by (auto simp: process_tool_use_def)
qed

theorem read_exemption_witness:
  "process_tool_use demo_env (start_state demo_session []) ''Read''
      [''file_path'' \<mapsto> ''/tmp/photo.png''] (Some ''t1'') =
     Continue (check_ask_user demo_env ''Read''
       (show_tool (close_segment (start_state demo_session [])) ''Read''
          [''file_path'' \<mapsto> ''/tmp/photo.png''] (Some ''t1''))) \<and>
   safety_check demo_env ''Read'' [''file_path'' \<mapsto> ''/etc/.claude/settings.json''] = None \<and>
   \<not> isPathAllowed demo_env ''/tmp/photo.png'' \<and>
   process_tool_use demo_env (start_state demo_session []) ''Write''
      [''file_path'' \<mapsto> ''/tmp/photo.png''] (Some ''t2'') =
     Thrown (statusCallback Tool ''Access denied: /tmp/photo.png'' None None Awaited
               (start_state demo_session []))
       ''Error: File access blocked: /tmp/photo.png''"
proof -
  have temp: "\<exists>p \<in> set (TEMP_PATHS demo_env).
      \<exists>q. field_or [''file_path'' \<mapsto> ''/tmp/photo.png''] ''file_path'' [] = p @ q"
    by (simp add: demo_env_def field_or_def)
  have claude: "\<exists>p q. field_or [''file_path'' \<mapsto> ''/etc/.claude/settings.json'']
      ''file_path'' [] = p @ ''/.claude/'' @ q"
  proof -
    have f: "field_or [''file_path'' \<mapsto> ''/etc/.claude/settings.json''] ''file_path'' [] =
        ''/etc/.claude/settings.json''"
      by (simp add: field_or_def)
    have "str_includes ''/etc/.claude/settings.json'' ''/.claude/''"
      by code_simp
    then show ?thesis
      unfolding f str_includes_iff .
  qed
  have outside: "\<not> isPathAllowed demo_env ''/tmp/photo.png''"
    by (simp add: demo_env_def startsWith_def)
  have path: "field_or [''file_path'' \<mapsto> ''/tmp/photo.png''] ''file_path'' [] =
      ''/tmp/photo.png'' \<and> ''/tmp/photo.png'' \<noteq> []"
    by (simp add: field_or_def)
  from temp claude outside path
    read_exemption [where toolName = "''Read''" and e = demo_env
      and toolInput = "[''file_path'' \<mapsto> ''/tmp/photo.png'']"
      and r = "start_state demo_session []" and toolUseId = "Some ''t1''"]
    read_exemption [where toolName = "''Read''" and e = demo_env
      and toolInput = "[''file_path'' \<mapsto> ''/etc/.claude/settings.json'']"]
    read_exemption [where toolName = "''Write''" and e = demo_env
      and toolInput = "[''file_path'' \<mapsto> ''/tmp/photo.png'']"
      and filePath = "''/tmp/photo.png''"
      and r = "start_state demo_session []" and toolUseId = "Some ''t2''"]
  show ?thesis by simp
qed

subsection \<open>A blocked tool use\<close>

lemma suppressed_frame:
  assumes "queryCompleted r' = queryCompleted r" "askUserTriggered r' = askUserTriggered r"
    "stopRequested (sess r') = stopRequested (sess r)" "timedOut r' = timedOut r"
  shows "suppressed r' err = suppressed r err"
  using assms by (simp add: suppressed_def)

lemma process_event_blocked:
  assumes go: "\<not> stopRequested (sess r)"
    and before: "process_blocks e (capture_session_id e r (Event sid (Assistant blocks))) bs =
      Continue r'"
    and blocked: "safety_check e n i = Some (status, err)"
    and blocks: "blocks = bs @ ToolUseBlock n i u # bs'"
  shows "process_event e r (Event sid (Assistant blocks)) =
    Thrown (statusCallback Tool status None None Awaited r') err"
proof -
  have "process_blocks e r' (ToolUseBlock n i u # bs') =
      Thrown (statusCallback Tool status None None Awaited r') err"
    using blocked by (simp add: process_tool_use_def)
  with before have "process_blocks e (capture_session_id e r (Event sid (Assistant blocks)))
      blocks = Thrown (statusCallback Tool status None None Awaited r') err"
    unfolding blocks by (simp add: process_blocks_append)
  with go show ?thesis
    by (simp add: process_event_def)
qed

lemma run_query_failed:
  assumes "event_loop e r items ending = Thrown r1 err" "\<not> suppressed r1 err"
  shows "run_query e r items ending =
    (cleanup (r1\<lparr>clock_reads := Suc (clock_reads r1),
                 sess := (sess r1)\<lparr>lastError := Some (take 100 err),
                                   lastErrorTime := Some (Date_now e (clock_reads r1))\<rparr>\<rparr>),
     Inl err)"
  using assms by (simp add: run_query_def read_clock_def)

text \<open>
  C3, as the code has it. While the stream is open and no stop is pending, a tool use
  that fails a safety check is announced by an awaited \<open>tool\<close> status and raises the
  blocking error. Unless the \<open>catch\<close> block swallows that error (its text contains
  \<open>cancel\<close> or \<open>abort\<close> while the query is completed, waits for the user, is asked to
  stop or has timed out), the call fails with it, and the error is recorded in the
  session: \<open>lastError\<close> is its first 100 characters and \<open>lastErrorTime\<close> the time of
  the failure.
\<close>

theorem blocked_tool_use_fails_call:
  assumes opened: "prepare e s h message = Inr (r0, opts)"
    and alive: "consume e r0 items = Continue r"
    and go: "\<not> stopRequested (sess r)"
    and before:
      "process_blocks e
         (capture_session_id e r (Event sid (Assistant (bs @ ToolUseBlock n i u # bs')))) bs =
       Continue r'"
    and blocked: "safety_check e n i = Some (status, err)"
    and real: "\<not> suppressed r' err"
  shows "returned (sendMessageStreaming e s h message
            (items @ Ev (Event sid (Assistant (bs @ ToolUseBlock n i u # bs'))) # rest) ending) =
           Inl err \<and>
         lastError (sess (final (sendMessageStreaming e s h message
            (items @ Ev (Event sid (Assistant (bs @ ToolUseBlock n i u # bs'))) # rest) ending))) =
           Some (take 100 err) \<and>
         lastErrorTime (sess (final (sendMessageStreaming e s h message
            (items @ Ev (Event sid (Assistant (bs @ ToolUseBlock n i u # bs'))) # rest) ending))) =
           Some (Date_now e (clock_reads r')) \<and>
         emitted (final (sendMessageStreaming e s h message
            (items @ Ev (Event sid (Assistant (bs @ ToolUseBlock n i u # bs'))) # rest) ending)) =
           emitted r' @ [\<lparr>kind = Tool, payload = status, segmentId = None, toolId = None,
                           dispatch = Awaited\<rparr>]"
proof -
  let ?ev = "Event sid (Assistant (bs @ ToolUseBlock n i u # bs'))"
  let ?r1 = "statusCallback Tool status None None Awaited r'"
  have "process_event e r ?ev = Thrown ?r1 err"
    using go before blocked by (rule process_event_blocked) simp
  with alive have "consume e r0 (items @ Ev ?ev # rest) = Thrown ?r1 err"
    by (simp add: consume_append)
  then have loop: "event_loop e r0 (items @ Ev ?ev # rest) ending = Thrown ?r1 err"
    by (simp add: event_loop_def)
  have "suppressed ?r1 err = suppressed r' err"
    by (rule suppressed_frame) (simp_all add: statusCallback_frame)
  with real have "\<not> suppressed ?r1 err" by simp
  with loop have "run_query e r0 (items @ Ev ?ev # rest) ending =
      (cleanup (?r1\<lparr>clock_reads := Suc (clock_reads ?r1),
                 sess := (sess ?r1)\<lparr>lastError := Some (take 100 err),
                                    lastErrorTime := Some (Date_now e (clock_reads ?r1))\<rparr>\<rparr>),
       Inl err)"
    by (rule run_query_failed)
  with opened show ?thesis
    by (simp add: sendMessageStreaming_def cleanup_def statusCallback_def)
qed

theorem blocked_tool_use_fails_call_witness:
  "returned (demo_call demo_unsafe_stream Ends) =
     Inl ''Error: Unsafe command blocked: dangerous pattern: rm -rf /'' \<and>
   lastError (sess (final (demo_call demo_unsafe_stream Ends))) =
     Some ''Error: Unsafe command blocked: dangerous pattern: rm -rf /''"
proof -
  let ?ev = "Event (Some ''sess-1'')
      (Assistant ([] @ ToolUseBlock ''Bash'' [''command'' \<mapsto> ''rm -rf /''] (Some ''t1'') # []))"
  let ?err = "''Error: Unsafe command blocked: dangerous pattern: rm -rf /''"
  have "\<not> stopRequested demo_session"
    by (simp add: demo_session_def new_session_def)
  then obtain r0 opts where opened: "prepare demo_env demo_session [] ''hello'' = Inr (r0, opts)"
    using prepare_opened by blast
  have alive: "consume demo_env r0 [] = Continue r0" by simp
  have go: "\<not> stopRequested (sess r0)"
    using opened by (rule prepare_Inr)
  have before: "process_blocks demo_env (capture_session_id demo_env r0 ?ev) [] =
      Continue (capture_session_id demo_env r0 ?ev)"
    by simp
  have blocked: "safety_check demo_env ''Bash'' [''command'' \<mapsto> ''rm -rf /''] =
      Some (''BLOCKED: dangerous pattern: rm -rf /'', ?err)"
    by code_simp
  have "\<not> str_includes (toLowerCase ?err) ''cancel''" "\<not> str_includes (toLowerCase ?err) ''abort''"
    by code_simp+
  then have real: "\<not> suppressed (capture_session_id demo_env r0 ?ev) ?err"
    by (simp add: suppressed_def)
  have short: "take 100 ?err = ?err" by simp
  from blocked_tool_use_fails_call [OF opened alive go before blocked real, of "[]" Ends]
  show ?thesis
    by (simp add: demo_call_def demo_unsafe_stream_def short)
qed

text \<open>
  The claim C3 as the specification words it, that a blocked tool use leaves the
  last-error fields alone, fails on an unsafe \<open>Bash\<close> command: the session had no last
  error before the call and has the blocking error as its last error after it.
\<close>

theorem blocked_tool_use_counterexample:
  "lastError demo_session = None \<and> lastErrorTime demo_session = None \<and>
   returned (demo_call demo_unsafe_stream Ends) =
     Inl ''Error: Unsafe command blocked: dangerous pattern: rm -rf /'' \<and>
   lastError (sess (final (demo_call demo_unsafe_stream Ends))) =
     Some ''Error: Unsafe command blocked: dangerous pattern: rm -rf /'' \<and>
   lastErrorTime (sess (final (demo_call demo_unsafe_stream Ends))) = Some 1700000003000"
  by code_simp

subsection \<open>The pending tools\<close>

lemma find_Some_in_set: "find P xs = Some x \<Longrightarrow> x \<in> set xs"
  by (induction xs) (auto split: if_splits)

lemma emoji_nonempty:
  "e_read \<noteq> []" "e_write \<noteq> []" "e_edit \<noteq> []" "e_bash \<noteq> []" "e_glob \<noteq> []"
  "e_grep \<noteq> []" "e_web \<noteq> []" "e_task \<noteq> []" "e_todo \<noteq> []" "e_mcp \<noteq> []"
  "e_eyes \<noteq> []" "e_skill \<noteq> []" "e_check \<noteq> []"
  by (simp_all add: e_read_def e_write_def e_edit_def e_bash_def e_glob_def e_grep_def
      e_web_def e_task_def e_todo_def e_mcp_def e_eyes_def e_skill_def e_check_def)

lemma emojiMap_nonempty:
  "(case find P emojiMap of Some (key, val) \<Rightarrow> val | None \<Rightarrow> e_mcp) \<noteq> []"
proof (cases "find P emojiMap")
  case None
  then show ?thesis by (simp add: emoji_nonempty)
next
  case (Some kv)
  then have "kv \<in> set emojiMap" by (rule find_Some_in_set)
  then have "snd kv \<noteq> []"
    by (auto simp: emojiMap_def emoji_nonempty)
  with Some show ?thesis by (simp add: case_prod_beta)
qed

lemma formatMcpStatus_nonempty: "formatMcpStatus toolName toolInput \<noteq> []"
  by (simp add: formatMcpStatus_def Let_def emoji_nonempty)

lemma formatToolStatus_nonempty: "formatToolStatus toolName toolInput \<noteq> []"
  using emojiMap_nonempty [of "\<lambda>(key, val). str_includes toolName key"]
  by (simp add: formatToolStatus_def Let_def emoji_nonempty formatMcpStatus_nonempty)

lemma pending_ok_frame:
  assumes "pending_ok r" "pendingTools r' = pendingTools r"
  shows "pending_ok r'"
  using assms by (simp add: pending_ok_def)

lemma pending_ok_show: "pending_ok r \<Longrightarrow> pending_ok (show_tool r n i u)"
  using formatToolStatus_nonempty [of n i]
  by (auto simp: pending_ok_def show_tool_def statusCallback_def Let_def
      split: option.splits if_splits)

lemma pending_ok_result: "pending_ok r \<Longrightarrow> pending_ok (process_tool_result e r b)"
  by (cases b)
    (auto simp: pending_ok_def statusCallback_def Let_def split: option.splits if_splits)

lemma pending_ok_consume: "pending_ok r \<Longrightarrow> pending_ok (out_state (consume e r items))"
proof (rule loop_invariant [where P = pending_ok])
  show "pending_ok (process_thinking r t)" if "pending_ok r" for r t
    using that by (rule pending_ok_frame) (simp add: process_thinking_def statusCallback_frame)
  show "pending_ok (process_text e r t)" if "pending_ok r" for r t
    using that by (rule pending_ok_frame)
      (simp add: process_text_def read_clock_def statusCallback_def Let_def)
  show "pending_ok (statusCallback Tool status None None Awaited r)"
    if "pending_ok r" for r status
    using that by (rule pending_ok_frame) (simp add: statusCallback_frame)
  show "pending_ok (close_segment r)" if "pending_ok r" for r
    using that by (rule pending_ok_frame) (simp add: close_segment_def statusCallback_def)
  show "pending_ok (check_ask_user e n r)" if "pending_ok r" for r n
    using that by (rule pending_ok_frame) (simp add: check_ask_user_frame)
  show "pending_ok (capture_session_id e r ev)" if "pending_ok r" for r ev
    using that by (rule pending_ok_frame) (simp add: capture_session_id_frame)
  show "pending_ok (complete_query u r)" if "pending_ok r" for r u
    using that by (rule pending_ok_frame) (simp add: complete_query_def)
  show "pending_ok (stop_call r)" if "pending_ok r" for r
    using that by (rule pending_ok_frame) (simp add: stop_call_def)
  show "pending_ok (timer_fires r)" if "pending_ok r" for r
    using that by (rule pending_ok_frame) (simp add: timer_fires_def)
qed (simp_all add: pending_ok_show pending_ok_result)

lemma ask_user_tool_dropped:
  assumes "startsWith toolName ''mcp__ask-user''"
    and "process_tool_use e q toolName toolInput (Some i) = Continue q'"
    and "i \<noteq> []"
  shows "pendingTools q' i = None"
proof -
  from assms(2) have "q' = check_ask_user e toolName
      (show_tool (close_segment q) toolName toolInput (Some i))"
    by (simp add: process_tool_use_def split: option.splits prod.splits)
  with assms(1,3) show ?thesis
    by (simp add: check_ask_user_frame show_tool_def Let_def)
qed

lemma tool_result_emitted:
  "emitted (process_tool_result e q b) = emitted q \<or>
   (\<exists>x. emitted (process_tool_result e q b) = emitted q @ [x] \<and> kind x = ToolDone \<and>
      dispatch x = FireAndForget)"
  by (cases b) (auto simp: statusCallback_def Let_def split: option.splits)

lemma tool_results_emitted:
  "\<exists>more. emitted (foldl (process_tool_result e) q bs) = emitted q @ more \<and>
     list_all (\<lambda>x. kind x = ToolDone \<and> dispatch x = FireAndForget) more"
proof (induction bs arbitrary: q)
  case Nil
  then show ?case by simp
next
  case (Cons b bs)
  from Cons [of "process_tool_result e q b"] obtain more where more:
    "emitted (foldl (process_tool_result e) (process_tool_result e q b) bs) =
      emitted (process_tool_result e q b) @ more"
    "list_all (\<lambda>x. kind x = ToolDone \<and> dispatch x = FireAndForget) more"
    by (elim exE conjE)
  from tool_result_emitted [of e q b] show ?case
  proof
    assume "emitted (process_tool_result e q b) = emitted q"
    with more have "emitted (foldl (process_tool_result e) q (b # bs)) = emitted q @ more \<and>
        list_all (\<lambda>x. kind x = ToolDone \<and> dispatch x = FireAndForget) more"
      by simp
    then show ?thesis by blast
  next
    assume "\<exists>x. emitted (process_tool_result e q b) = emitted q @ [x] \<and> kind x = ToolDone \<and>
      dispatch x = FireAndForget"
    then obtain x where "emitted (process_tool_result e q b) = emitted q @ [x]"
      "kind x = ToolDone" "dispatch x = FireAndForget"
      by (elim exE conjE)
    with more have "emitted (foldl (process_tool_result e) q (b # bs)) = emitted q @ (x # more) \<and>
        list_all (\<lambda>x. kind x = ToolDone \<and> dispatch x = FireAndForget) (x # more)"
      by simp
    then show ?thesis by blast
  qed
qed

lemma process_event_user:
  assumes "\<not> stopRequested (sess r1)"
  shows "process_event e r1 (Event sid (User (Some blocks))) =
      Continue (foldl (process_tool_result e)
        (capture_session_id e r1 (Event sid (User (Some blocks)))) blocks)"
    and "process_event e r1 (Event sid (User None)) =
      Continue (capture_session_id e r1 (Event sid (User None)))"
  using assms by (simp_all add: process_event_def)

lemma tool_result_made:
  assumes ok: "pending_ok r"
  shows "emitted (process_tool_result e r (ToolResultBlock tool_use_id is_error content)) =
      emitted r @
      (case tool_use_id of
         None \<Rightarrow> []
       | Some i \<Rightarrow>
           (case pendingTools r i of
              None \<Rightarrow> []
            | Some toolDisplay \<Rightarrow>
                [\<lparr>kind = ToolDone,
                  payload =
                    (if is_error \<or> looksLikeError e (extractToolResultText e content)
                     then formatToolErrorStatus e toolDisplay @ summarizeToolOutput e content
                     else formatToolDoneStatus toolDisplay @ summarizeToolOutput e content),
                  segmentId = None, toolId = Some i, dispatch = FireAndForget\<rparr>]))"
proof (cases tool_use_id)
  case None
  then show ?thesis by simp
next
  case outer: (Some i)
  show ?thesis
  proof (cases "pendingTools r i")
    case None
    with outer show ?thesis by simp
  next
    case (Some toolDisplay)
    with ok have "i \<noteq> []" "toolDisplay \<noteq> []"
      by (auto simp: pending_ok_def)
    with outer Some show ?thesis
      by (simp add: Let_def statusCallback_def)
  qed
qed

text \<open>
  C8. Take a user event that arrives while the stream is open and no stop has been
  requested, and a tool-result block at any place of its content; \<open>r\<close> is the state
  the block is processed in, after the blocks before it, which make only
  \<open>tool_done\<close> updates. The event is processed block by block and the loop goes
  on with the rest of the stream. The block makes one \<open>tool_done\<close> update, for its
  identifier, if that identifier is in the table of pending tools, and no update
  otherwise (no identifier, or one that is not in the table): with the error display
  if the block's error flag is set or its result text looks like an error, with the
  done display otherwise; the entry is removed. The blocks after it make only
  \<open>tool_done\<close> updates. A user event without a content list changes nothing but
  the captured session id. The identifier of an ask-user tool is not in the table
  after the tool use has been processed, in whatever state that was (an empty
  identifier is never looked up).
\<close>

theorem tool_done_iff_pending:
  assumes opened: "prepare e s h message = Inr (r0, opts)"
    and alive: "consume e r0 items = Continue r1"
    and go: "\<not> stopRequested (sess r1)"
    and at: "r = foldl (process_tool_result e)
      (capture_session_id e r1
        (Event sid (User (Some (before @ ToolResultBlock tool_use_id is_error content # after)))))
      before"
  shows "process_event e r1
           (Event sid (User (Some (before @ ToolResultBlock tool_use_id is_error content # after)))) =
           Continue (foldl (process_tool_result e)
             (process_tool_result e r (ToolResultBlock tool_use_id is_error content)) after) \<and>
         consume e r0
           (items @
            Ev (Event sid
              (User (Some (before @ ToolResultBlock tool_use_id is_error content # after)))) #
            rest) =
           consume e (foldl (process_tool_result e)
             (process_tool_result e r (ToolResultBlock tool_use_id is_error content)) after) rest \<and>
         (\<exists>earlier. emitted r = emitted r1 @ earlier \<and>
            list_all (\<lambda>x. kind x = ToolDone \<and> dispatch x = FireAndForget) earlier) \<and>
         emitted (process_tool_result e r (ToolResultBlock tool_use_id is_error content)) =
           emitted r @
           (case tool_use_id of
              None \<Rightarrow> []
            | Some i \<Rightarrow>
                (case pendingTools r i of
                   None \<Rightarrow> []
                 | Some toolDisplay \<Rightarrow>
                     [\<lparr>kind = ToolDone,
                       payload =
                         (if is_error \<or> looksLikeError e (extractToolResultText e content)
                          then formatToolErrorStatus e toolDisplay @ summarizeToolOutput e content
                          else formatToolDoneStatus toolDisplay @ summarizeToolOutput e content),
                       segmentId = None, toolId = Some i, dispatch = FireAndForget\<rparr>])) \<and>
         (\<exists>later.
            emitted (foldl (process_tool_result e)
              (process_tool_result e r (ToolResultBlock tool_use_id is_error content)) after) =
              emitted (process_tool_result e r (ToolResultBlock tool_use_id is_error content)) @
              later \<and>
            list_all (\<lambda>x. kind x = ToolDone \<and> dispatch x = FireAndForget) later) \<and>
         (\<forall>i toolDisplay. tool_use_id = Some i \<and> pendingTools r i = Some toolDisplay \<longrightarrow>
            process_tool_result e r (ToolResultBlock tool_use_id is_error content) =
              statusCallback ToolDone
                (if is_error \<or> looksLikeError e (extractToolResultText e content)
                 then formatToolErrorStatus e toolDisplay @ summarizeToolOutput e content
                 else formatToolDoneStatus toolDisplay @ summarizeToolOutput e content)
                None (Some i) FireAndForget
                (r\<lparr>pendingTools := (pendingTools r)(i := None)\<rparr>)) \<and>
         (tool_use_id = None \<or> (\<exists>i. tool_use_id = Some i \<and> pendingTools r i = None) \<longrightarrow>
            process_tool_result e r (ToolResultBlock tool_use_id is_error content) = r) \<and>
         (\<forall>q toolName toolInput i q'. startsWith toolName ''mcp__ask-user'' \<and> i \<noteq> [] \<and>
            process_tool_use e q toolName toolInput (Some i) = Continue q' \<longrightarrow>
            pendingTools q' i = None) \<and>
         process_event e r1 (Event sid' (User None)) =
           Continue (capture_session_id e r1 (Event sid' (User None)))"
proof -
  let ?b = "ToolResultBlock tool_use_id is_error content"
  let ?ev = "Event sid (User (Some (before @ ?b # after)))"
  have event: "process_event e r1 ?ev =
      Continue (foldl (process_tool_result e) (process_tool_result e r ?b) after)"
    using process_event_user(1) [OF go, of e sid "before @ ?b # after"]
    by (simp add: at)
  with alive have stream: "consume e r0 (items @ Ev ?ev # rest) =
      consume e (foldl (process_tool_result e) (process_tool_result e r ?b) after) rest"
    by (simp add: consume_append)
  have earlier: "\<exists>earlier. emitted r = emitted r1 @ earlier \<and>
      list_all (\<lambda>x. kind x = ToolDone \<and> dispatch x = FireAndForget) earlier"
    using tool_results_emitted [of e "capture_session_id e r1 ?ev" before]
    by (simp add: at capture_session_id_frame)
  have later: "\<exists>later.
      emitted (foldl (process_tool_result e) (process_tool_result e r ?b) after) =
        emitted (process_tool_result e r ?b) @ later \<and>
      list_all (\<lambda>x. kind x = ToolDone \<and> dispatch x = FireAndForget) later"
    by (rule tool_results_emitted)
  have "pending_ok r0"
    using prepare_Inr(8) [OF opened] by (simp add: pending_ok_def)
  then have "pending_ok (out_state (consume e r0 items))" by (rule pending_ok_consume)
  with alive have "pending_ok r1" by simp
  then have "pending_ok (capture_session_id e r1 ?ev)"
    by (rule pending_ok_frame) (simp add: capture_session_id_frame)
  then have ok: "pending_ok r"
    unfolding at by (rule foldl_preserves [rotated]) (rule pending_ok_result)
  have found: "process_tool_result e r ?b =
      statusCallback ToolDone
        (if is_error \<or> looksLikeError e (extractToolResultText e content)
         then formatToolErrorStatus e toolDisplay @ summarizeToolOutput e content
         else formatToolDoneStatus toolDisplay @ summarizeToolOutput e content)
        None (Some i) FireAndForget (r\<lparr>pendingTools := (pendingTools r)(i := None)\<rparr>)"
    if "tool_use_id = Some i" "pendingTools r i = Some toolDisplay" for i toolDisplay
  proof -
    from ok that(2) have "i \<noteq> []" "toolDisplay \<noteq> []"
      by (auto simp: pending_ok_def)
    with that show ?thesis by (simp add: Let_def)
  qed
  have absent: "process_tool_result e r ?b = r"
    if "tool_use_id = None \<or> (\<exists>i. tool_use_id = Some i \<and> pendingTools r i = None)"
    using that by auto
  have made: "emitted (process_tool_result e r ?b) =
      emitted r @
      (case tool_use_id of
         None \<Rightarrow> []
       | Some i \<Rightarrow>
           (case pendingTools r i of
              None \<Rightarrow> []
            | Some toolDisplay \<Rightarrow>
                [\<lparr>kind = ToolDone,
                  payload =
                    (if is_error \<or> looksLikeError e (extractToolResultText e content)
                     then formatToolErrorStatus e toolDisplay @ summarizeToolOutput e content
                     else formatToolDoneStatus toolDisplay @ summarizeToolOutput e content),
                  segmentId = None, toolId = Some i, dispatch = FireAndForget\<rparr>]))"
    using ok by (rule tool_result_made)
  have dropped: "pendingTools q' i = None"
    if "startsWith toolName ''mcp__ask-user''" "i \<noteq> []"
      "process_tool_use e q toolName toolInput (Some i) = Continue q'"
    for q toolName toolInput i q'
    using that(1,3,2) by (rule ask_user_tool_dropped)
  have none: "process_event e r1 (Event sid' (User None)) =
      Continue (capture_session_id e r1 (Event sid' (User None)))"
    by (rule process_event_user(2) [OF go])
  have fa: "\<forall>i toolDisplay. tool_use_id = Some i \<and> pendingTools r i = Some toolDisplay \<longrightarrow>
      process_tool_result e r ?b =
        statusCallback ToolDone
          (if is_error \<or> looksLikeError e (extractToolResultText e content)
           then formatToolErrorStatus e toolDisplay @ summarizeToolOutput e content
           else formatToolDoneStatus toolDisplay @ summarizeToolOutput e content)
          None (Some i) FireAndForget
          (r\<lparr>pendingTools := (pendingTools r)(i := None)\<rparr>)"
    using found by blast
  have ab: "tool_use_id = None \<or> (\<exists>i. tool_use_id = Some i \<and> pendingTools r i = None) \<longrightarrow>
      process_tool_result e r ?b = r"
    using absent by blast
  have dr: "\<forall>q toolName toolInput i q'. startsWith toolName ''mcp__ask-user'' \<and> i \<noteq> [] \<and>
      process_tool_use e q toolName toolInput (Some i) = Continue q' \<longrightarrow>
      pendingTools q' i = None"
    using dropped by blast
  show ?thesis
    by (rule conjI [OF event conjI [OF stream conjI [OF earlier conjI [OF made
      conjI [OF later conjI [OF fa conjI [OF ab conjI [OF dr none]]]]]]]])
qed

theorem tool_done_iff_pending_witness:
  "pendingTools (demo_after (take 1 demo_tool_stream)) ''t1'' =
     Some (formatToolStatus ''Bash'' [''command'' \<mapsto> ''ls'']) \<and>
   emitted (demo_after (take 2 demo_tool_stream)) =
     emitted (demo_after (take 1 demo_tool_stream)) @
       [\<lparr>kind = ToolDone,
         payload = formatToolDoneStatus (formatToolStatus ''Bash'' [''command'' \<mapsto> ''ls'']) @
                   '' - a.txt'',
         segmentId = None, toolId = Some ''t1'', dispatch = FireAndForget\<rparr>] \<and>
   pendingTools (demo_after (take 1 demo_tool_stream)) ''t9'' = None \<and>
   process_tool_result demo_env (demo_after (take 1 demo_tool_stream))
      (ToolResultBlock (Some ''t9'') False ''a.txt'') =
     demo_after (take 1 demo_tool_stream) \<and>
   pendingTools (out_state (process_tool_use demo_env (demo_after (take 1 demo_tool_stream))
      ''mcp__ask-user__ask'' Map.empty (Some ''t2''))) ''t2'' = None"
proof -
  let ?r = "demo_after (take 1 demo_tool_stream)"
  let ?b = "ToolResultBlock (Some ''t1'') False ''a.txt''"
  let ?ev = "Event (Some ''sess-1'') (User (Some ([] @ ?b # [])))"
  obtain r0 opts where opened: "prepare demo_env demo_session [] ''hello'' = Inr (r0, opts)"
    using demo_prepared by blast
  then have r0: "r0 = demo_opened" by (simp add: demo_opened_def)
  have "case consume demo_env demo_opened (take 1 demo_tool_stream) of
      Continue r \<Rightarrow> True | _ \<Rightarrow> False"
    by code_simp
  with opened have alive: "consume demo_env r0 (take 1 demo_tool_stream) = Continue ?r"
    by (rule demo_alive)
  have go: "\<not> stopRequested (sess ?r)"
    by code_simp
  have known: "truthy (sessionId (sess ?r))"
    by code_simp
  then have at: "?r = foldl (process_tool_result demo_env)
      (capture_session_id demo_env ?r
        (Event (Some ''sess-1'') (User (Some ([] @ ToolResultBlock i err c # []))))) []"
    for i err c
    by (simp add: capture_session_id_def)
  have pending: "pendingTools ?r ''t1'' = Some (formatToolStatus ''Bash'' [''command'' \<mapsto> ''ls''])"
    by code_simp
  have absent: "pendingTools ?r ''t9'' = None"
    by code_simp
  have heuristic: "\<not> looksLikeError demo_env (extractToolResultText demo_env ''a.txt'')"
    "summarizeToolOutput demo_env ''a.txt'' = '' - a.txt''"
    by (simp_all add: demo_env_def toLowerCase_def startsWith_def lower_char_def)
  have second: "take 2 demo_tool_stream = take 1 demo_tool_stream @ Ev ?ev # []"
    by (simp add: demo_tool_stream_def)
  note found = tool_done_iff_pending [OF opened alive go at,
      where tool_use_id = "Some ''t1''" and is_error = False and content = "''a.txt''"
        and rest = "[]"]
  from found [THEN conjunct2, THEN conjunct1, unfolded r0]
  have "consume demo_env demo_opened (take 2 demo_tool_stream) =
      Continue (process_tool_result demo_env ?r ?b)"
    by (simp only: second foldl_Nil consume.simps)
  then have "demo_after (take 2 demo_tool_stream) = process_tool_result demo_env ?r ?b"
    by (simp only: demo_after_def [of "take 2 demo_tool_stream"] out_state.simps)
  moreover from found [THEN conjunct2, THEN conjunct2, THEN conjunct2, THEN conjunct1]
  have "emitted (process_tool_result demo_env ?r ?b) =
      emitted ?r @
        [\<lparr>kind = ToolDone,
          payload = formatToolDoneStatus (formatToolStatus ''Bash'' [''command'' \<mapsto> ''ls'']) @
                    '' - a.txt'',
          segmentId = None, toolId = Some ''t1'', dispatch = FireAndForget\<rparr>]"
    by (simp only: option.case pending heuristic simp_thms if_False)
  ultimately have made: "emitted (demo_after (take 2 demo_tool_stream)) =
      emitted ?r @
        [\<lparr>kind = ToolDone,
          payload = formatToolDoneStatus (formatToolStatus ''Bash'' [''command'' \<mapsto> ''ls'']) @
                    '' - a.txt'',
          segmentId = None, toolId = Some ''t1'', dispatch = FireAndForget\<rparr>]"
    by (simp only:)
  note other = tool_done_iff_pending [OF opened alive go at,
      where tool_use_id = "Some ''t9''" and is_error = False and content = "''a.txt''"]
  from other [THEN conjunct2, THEN conjunct2, THEN conjunct2, THEN conjunct2, THEN conjunct2,
      THEN conjunct2, THEN conjunct1] absent
  have unknown: "process_tool_result demo_env ?r (ToolResultBlock (Some ''t9'') False ''a.txt'') =
      ?r"
    by blast
  let ?out = "process_tool_use demo_env ?r ''mcp__ask-user__ask'' Map.empty (Some ''t2'')"
  have "safety_check demo_env ''mcp__ask-user__ask'' Map.empty = None"
    by code_simp
  then have went: "?out = Continue (out_state ?out)"
    by (simp add: process_tool_use_def)
  have ask: "startsWith ''mcp__ask-user__ask'' ''mcp__ask-user''" "''t2'' \<noteq> []"
    by code_simp+
  from other [THEN conjunct2, THEN conjunct2, THEN conjunct2, THEN conjunct2, THEN conjunct2,
      THEN conjunct2, THEN conjunct2, THEN conjunct1] ask went
  have dropped: "pendingTools (out_state ?out) ''t2'' = None"
    by blast
  from pending made absent unknown dropped show ?thesis by (intro conjI)
qed

subsection \<open>Awaited and fire-and-forget updates\<close>

lemma dispatch_inv_frame:
  assumes "dispatch_inv r" "emitted r' = emitted r"
  shows "dispatch_inv r'"
  using assms by (simp add: dispatch_inv_def)

lemma dispatch_inv_update:
  assumes "dispatch_inv r"
    "loop_dispatch \<lparr>kind = knd, payload = p, segmentId = seg, toolId = t, dispatch = d\<rparr>"
  shows "dispatch_inv (statusCallback knd p seg t d r)"
  using assms by (simp add: dispatch_inv_def statusCallback_def)

lemma dispatch_inv_text: "dispatch_inv r \<Longrightarrow> dispatch_inv (process_text e r t)"
proof -
  assume inv: "dispatch_inv r"
  let ?r2 = "r\<lparr>responseParts := responseParts r @ [t],
                currentSegmentText := currentSegmentText r @ t,
                clock_reads := Suc (clock_reads r)\<rparr>"
  have r2: "dispatch_inv ?r2"
    using inv by (rule dispatch_inv_frame) simp
  then have "dispatch_inv (statusCallback Text p seg None Awaited ?r2)" for p seg
    by (rule dispatch_inv_update) (simp add: loop_dispatch_def)
  then have "dispatch_inv ((statusCallback Text p seg None Awaited ?r2)\<lparr>lastTextUpdate := n\<rparr>)"
    for p seg n
    by (rule dispatch_inv_frame) simp
  with r2 show ?thesis
    by (simp add: process_text_def read_clock_def Let_def)
qed

lemma dispatch_inv_close: "dispatch_inv r \<Longrightarrow> dispatch_inv (close_segment r)"
proof -
  assume inv: "dispatch_inv r"
  then have "dispatch_inv (statusCallback SegmentEnd p seg None FireAndForget r)" for p seg
    by (rule dispatch_inv_update) (simp add: loop_dispatch_def)
  then have "dispatch_inv ((statusCallback SegmentEnd p seg None FireAndForget r)
      \<lparr>currentSegmentId := n, currentSegmentText := []\<rparr>)" for p seg n
    by (rule dispatch_inv_frame) simp
  with inv show ?thesis by (simp add: close_segment_def)
qed

lemma dispatch_inv_show: "dispatch_inv r \<Longrightarrow> dispatch_inv (show_tool r n i u)"
  by (simp add: dispatch_inv_def show_tool_emitted loop_dispatch_def)

lemma dispatch_inv_result: "dispatch_inv r \<Longrightarrow> dispatch_inv (process_tool_result e r b)"
  by (cases b)
    (auto simp: dispatch_inv_def statusCallback_def loop_dispatch_def Let_def
      split: option.splits)

lemma dispatch_inv_consume: "dispatch_inv r \<Longrightarrow> dispatch_inv (out_state (consume e r items))"
proof (rule loop_invariant [where P = dispatch_inv])
  show "dispatch_inv (process_thinking r t)" if "dispatch_inv r" for r t
    using that dispatch_inv_update [of r Thinking t None None FireAndForget]
    by (simp add: process_thinking_def loop_dispatch_def)
  show "dispatch_inv (statusCallback Tool status None None Awaited r)"
    if "dispatch_inv r" "safety_check e n i = Some (status, err)" for r n i status err
    using that(1)
  proof (rule dispatch_inv_update)
    from safety_check_forms [OF that(2)]
    show "loop_dispatch \<lparr>kind = Tool, payload = status, segmentId = None, toolId = None,
        dispatch = Awaited\<rparr>"
      by (auto simp: loop_dispatch_def startsWith_iff)
  qed
  show "dispatch_inv (check_ask_user e n r)" if "dispatch_inv r" for r n
    using that by (rule dispatch_inv_frame) (simp add: check_ask_user_frame)
  show "dispatch_inv (capture_session_id e r ev)" if "dispatch_inv r" for r ev
    using that by (rule dispatch_inv_frame) (simp add: capture_session_id_frame)
  show "dispatch_inv (complete_query u r)" if "dispatch_inv r" for r u
    using that by (rule dispatch_inv_frame) (simp add: complete_query_def)
  show "dispatch_inv (stop_call r)" if "dispatch_inv r" for r
    using that by (rule dispatch_inv_frame) (simp add: stop_call_def)
  show "dispatch_inv (timer_fires r)" if "dispatch_inv r" for r
    using that by (rule dispatch_inv_frame) (simp add: timer_fires_def)
qed (simp_all add: dispatch_inv_text dispatch_inv_close dispatch_inv_show dispatch_inv_result)

lemma closing_awaited: "list_all closing_dispatch (closing r)"
  by (simp add: closing_def closing_dispatch_def flush_emission_def notice_emissions_def
      done_emission_def)

lemma send_dispatch_split:
  "\<exists>inside after.
     emitted (final (sendMessageStreaming e s h message items ending)) = inside @ after \<and>
     list_all loop_dispatch inside \<and> list_all closing_dispatch after"
proof (cases rule: send_cases [of e s h message items ending])
  case (Cancelled res)
  have "emitted (final (sendMessageStreaming e s h message items ending)) = [] @ [] \<and>
      list_all loop_dispatch [] \<and> list_all closing_dispatch []"
    using prepare_Inl(1) [OF Cancelled(1)] Cancelled(2) by simp
  then show ?thesis by blast
next
  case (Failed r0 opts r1 err)
  have "dispatch_inv r0"
    using prepare_Inr(1) [OF Failed(1)] by (simp add: dispatch_inv_def)
  then have "dispatch_inv (out_state (consume e r0 items))" by (rule dispatch_inv_consume)
  with Failed(2) have "dispatch_inv r1"
    using out_state_event_loop [of e r0 items ending] by simp
  with Failed(4) have "emitted (final (sendMessageStreaming e s h message items ending)) =
      emitted r1 @ [] \<and> list_all loop_dispatch (emitted r1) \<and> list_all closing_dispatch []"
    by (simp add: dispatch_inv_def)
  then show ?thesis by blast
next
  case (Finished r0 opts r1)
  have "dispatch_inv r0"
    using prepare_Inr(1) [OF Finished(1)] by (simp add: dispatch_inv_def)
  then have "dispatch_inv (out_state (consume e r0 items))" by (rule dispatch_inv_consume)
  with Finished(2) have "dispatch_inv r1" by (simp add: out_state_event_loop)
  with Finished(4) have "emitted (final (sendMessageStreaming e s h message items ending)) =
      emitted r1 @ closing r1 \<and> list_all loop_dispatch (emitted r1) \<and>
      list_all closing_dispatch (closing r1)"
    by (simp add: dispatch_inv_def finish_emitted cleanup_frame closing_cleanup closing_awaited)
  then show ?thesis by blast
qed

lemma fire_and_forget_kinds:
  "loop_dispatch x \<or> closing_dispatch x \<Longrightarrow>
     kind x = Thinking \<or> kind x = ToolDone \<longrightarrow> dispatch x = FireAndForget"
  by (cases "kind x") (simp_all add: loop_dispatch_def closing_dispatch_def)

lemma awaited_kinds:
  "loop_dispatch x \<or> closing_dispatch x \<Longrightarrow>
     kind x = Text \<or> kind x = Done \<longrightarrow> dispatch x = Awaited"
  by (cases "kind x") (simp_all add: loop_dispatch_def closing_dispatch_def)

lemma send_dispatch_at_exit:
  fixes items ending
  assumes opened: "prepare e s h message = Inr (r0, opts)"
  defines "r1 \<equiv> out_state (event_loop e r0 items ending)"
    and "ems \<equiv> emitted (final (sendMessageStreaming e s h message items ending))"
  shows "emitted r0 = []"
    and "take (length (emitted r1)) ems = emitted r1"
    and "list_all loop_dispatch (emitted r1)"
    and "list_all closing_dispatch (drop (length (emitted r1)) ems)"
proof -
  show start: "emitted r0 = []" by (rule prepare_Inr(1) [OF opened])
  then have "dispatch_inv r0" by (simp add: dispatch_inv_def)
  then have "dispatch_inv (out_state (consume e r0 items))" by (rule dispatch_inv_consume)
  then show inside: "list_all loop_dispatch (emitted r1)"
    by (simp add: r1_def out_state_event_loop dispatch_inv_def)
  have "ems = emitted r1 \<or> ems = emitted r1 @ closing r1"
  proof (cases rule: send_cases [of e s h message items ending])
    case (Cancelled res)
    with opened show ?thesis by simp
  next
    case (Failed r0' opts' r1' err)
    with opened show ?thesis by (simp add: r1_def ems_def)
  next
    case (Finished r0' opts' r1')
    with opened show ?thesis
      by (simp add: r1_def ems_def finish_emitted cleanup_frame closing_cleanup)
  qed
  then show "take (length (emitted r1)) ems = emitted r1"
    and "list_all closing_dispatch (drop (length (emitted r1)) ems)"
    using closing_awaited [of r1] by auto
qed

text \<open>
  C9, as the code has it. The status updates of a call are those made inside the
  event loop, which are the updates of the state the loop is left in, followed by
  those made after it. Inside the loop, a \<open>text\<close> update is awaited; a \<open>thinking\<close>, a
  \<open>tool_done\<close> and a \<open>segment_end\<close> update (the one that closes a segment when a
  tool starts) are fire-and-forget; a \<open>tool\<close> update is fire-and-forget unless it
  announces a blocked tool use, and no \<open>done\<close> update is made. Every update made
  after the loop (\<open>segment_end\<close>, \<open>text\<close>, \<open>done\<close>) is awaited. A call that is
  cancelled before the stream is opened makes no update. So over the whole call every
  \<open>thinking\<close> and \<open>tool_done\<close> update is fire-and-forget and every \<open>text\<close> and
  \<open>done\<close> update is awaited, while a \<open>segment_end\<close> and a \<open>tool\<close> update can be
  either.
\<close>

theorem dispatch_of_updates:
  "(\<forall>r0 opts. prepare e s h message = Inr (r0, opts) \<longrightarrow>
      emitted r0 = [] \<and>
      take (length (emitted (out_state (event_loop e r0 items ending))))
        (emitted (final (sendMessageStreaming e s h message items ending))) =
        emitted (out_state (event_loop e r0 items ending)) \<and>
      list_all loop_dispatch (emitted (out_state (event_loop e r0 items ending))) \<and>
      list_all closing_dispatch
        (drop (length (emitted (out_state (event_loop e r0 items ending))))
           (emitted (final (sendMessageStreaming e s h message items ending))))) \<and>
   ((\<exists>res. prepare e s h message = Inl res) \<longrightarrow>
      emitted (final (sendMessageStreaming e s h message items ending)) = []) \<and>
   list_all (\<lambda>x. kind x = Thinking \<or> kind x = ToolDone \<longrightarrow> dispatch x = FireAndForget)
     (emitted (final (sendMessageStreaming e s h message items ending))) \<and>
   list_all (\<lambda>x. kind x = Text \<or> kind x = Done \<longrightarrow> dispatch x = Awaited)
     (emitted (final (sendMessageStreaming e s h message items ending)))"
proof -
  let ?ems = "emitted (final (sendMessageStreaming e s h message items ending))"
  have never: "?ems = []" if "prepare e s h message = Inl res" for res
    using that prepare_Inl(1) [OF that] by (simp add: sendMessageStreaming_def)
  from send_dispatch_split [of e s h message items ending]
  obtain inside after where split: "?ems = inside @ after"
    "list_all loop_dispatch inside" "list_all closing_dispatch after"
    by (elim exE conjE)
  have each: "loop_dispatch x \<or> closing_dispatch x"
    if "x \<in> set (inside @ after)" for x
    using that split(2,3) by (auto simp: list_all_iff)
  have a: "list_all (\<lambda>x. kind x = Thinking \<or> kind x = ToolDone \<longrightarrow> dispatch x = FireAndForget)
      ?ems"
    unfolding split(1) list_all_iff using each fire_and_forget_kinds by blast
  have b: "list_all (\<lambda>x. kind x = Text \<or> kind x = Done \<longrightarrow> dispatch x = Awaited) ?ems"
    unfolding split(1) list_all_iff using each awaited_kinds by blast
  have loop: "emitted r0 = [] \<and>
      take (length (emitted (out_state (event_loop e r0 items ending)))) ?ems =
        emitted (out_state (event_loop e r0 items ending)) \<and>
      list_all loop_dispatch (emitted (out_state (event_loop e r0 items ending))) \<and>
      list_all closing_dispatch
        (drop (length (emitted (out_state (event_loop e r0 items ending)))) ?ems)"
    if "prepare e s h message = Inr (r0, opts)" for r0 opts
    by (intro conjI) (rule send_dispatch_at_exit [OF that])+
  from loop never a b show ?thesis by blast
qed

theorem dispatch_of_updates_witness:
  "map (\<lambda>x. (kind x, dispatch x)) (emitted (final (demo_call demo_tool_stream Ends))) =
     [(Text, Awaited), (SegmentEnd, FireAndForget), (Tool, FireAndForget),
      (ToolDone, FireAndForget), (Text, Awaited), (SegmentEnd, Awaited), (Done, Awaited)] \<and>
   take 5 (emitted (final (demo_call demo_tool_stream Ends))) =
     emitted (out_state (event_loop demo_env demo_opened demo_tool_stream Ends)) \<and>
   list_all loop_dispatch (take 5 (emitted (final (demo_call demo_tool_stream Ends)))) \<and>
   list_all closing_dispatch (drop 5 (emitted (final (demo_call demo_tool_stream Ends))))"
proof -
  let ?ems = "emitted (final (demo_call demo_tool_stream Ends))"
  let ?r1 = "out_state (event_loop demo_env demo_opened demo_tool_stream Ends)"
  have kinds: "map (\<lambda>x. (kind x, dispatch x)) ?ems =
     [(Text, Awaited), (SegmentEnd, FireAndForget), (Tool, FireAndForget),
      (ToolDone, FireAndForget), (Text, Awaited), (SegmentEnd, Awaited), (Done, Awaited)]"
    by code_simp
  obtain r0 opts where opened: "prepare demo_env demo_session [] ''hello'' = Inr (r0, opts)"
    using demo_prepared by blast
  then have r0: "r0 = demo_opened" by (simp add: demo_opened_def)
  have len: "length (emitted ?r1) = 5"
    by code_simp
  note inside = dispatch_of_updates [of demo_env demo_session "[]" "''hello''" demo_tool_stream
      Ends, folded demo_call_def, THEN conjunct1, THEN spec, THEN spec, THEN mp, OF opened,
      unfolded r0 len]
  from inside have a: "take 5 ?ems = emitted ?r1" by simp
  from inside have "list_all loop_dispatch (emitted ?r1)" by simp
  with a have b: "list_all loop_dispatch (take 5 ?ems)" by simp
  from inside have c: "list_all closing_dispatch (drop 5 ?ems)" by simp
  from kinds a b c show ?thesis by (intro conjI)
qed

text \<open>
  The claim C9 as the specification words it, that every \<open>segment_end\<close> update is
  awaited, fails when a tool starts after some text: the \<open>segment_end\<close> that closes the
  text is sent off without being awaited.
\<close>

theorem segment_end_awaited_counterexample:
  "emitted (final (demo_call demo_tool_stream Ends)) ! 1 =
     \<lparr>kind = SegmentEnd, payload = ''Here are the results of the search'',
      segmentId = Some 0, toolId = None, dispatch = FireAndForget\<rparr>"
  by code_simp

subsection \<open>Calls of \<open>stop\<close> and the timer while the loop waits\<close>

lemma stop_call_frame:
  "emitted (stop_call r) = emitted r" "responseParts (stop_call r) = responseParts r"
  "currentSegmentId (stop_call r) = currentSegmentId r"
  "currentSegmentText (stop_call r) = currentSegmentText r"
  "askUserTriggered (stop_call r) = askUserTriggered r"
  "queryCompleted (stop_call r) = queryCompleted r" "timedOut (stop_call r) = timedOut r"
  by (simp_all add: stop_call_def)

lemma timer_fires_frame:
  "emitted (timer_fires r) = emitted r" "responseParts (timer_fires r) = responseParts r"
  "currentSegmentId (timer_fires r) = currentSegmentId r"
  "currentSegmentText (timer_fires r) = currentSegmentText r"
  "askUserTriggered (timer_fires r) = askUserTriggered r"
  "queryCompleted (timer_fires r) = queryCompleted r" "timedOut (timer_fires r)"
  "stopRequested (sess (timer_fires r)) = stopRequested (sess r)"
  by (simp_all add: timer_fires_def)

lemma stop_call_running:
  assumes "running r"
  shows "stopRequested (sess (stop_call r))" "running (stop_call r)"
    "fst (stop (sess r)) = Stopped"
  using assms by (simp_all add: running_def stop_call_def stop_def)

lemma stop_call_keeps_flag: "stopRequested (sess r) \<Longrightarrow> stopRequested (sess (stop_call r))"
  by (simp add: stop_call_def stop_def)

lemma timer_fires_running: "running r \<Longrightarrow> running (timer_fires r)"
  by (auto simp: running_def timer_fires_def)

text \<open>What such items do to the state of the loop.\<close>

lemma consume_external:
  assumes "external_only mid"
  shows "\<exists>r'. consume e r mid = Continue r' \<and>
    emitted r' = emitted r \<and> responseParts r' = responseParts r \<and>
    currentSegmentId r' = currentSegmentId r \<and>
    currentSegmentText r' = currentSegmentText r \<and>
    askUserTriggered r' = askUserTriggered r \<and>
    (timedOut r' \<longleftrightarrow> timedOut r \<or> TimerFires \<in> set mid) \<and>
    (stopRequested (sess r) \<longrightarrow> stopRequested (sess r')) \<and>
    (running r \<longrightarrow> running r')"
  using assms
proof (induction mid arbitrary: r)
  case Nil
  then show ?case by simp
next
  case (Cons i mid)
  then have rest: "external_only mid" and i: "i = StopCall \<or> i = TimerFires"
    by (simp_all add: external_only_def)
  from i show ?case
  proof
    assume stop: "i = StopCall"
    from Cons.IH [OF rest, of "stop_call r"] obtain r' where
      "consume e (stop_call r) mid = Continue r'" "emitted r' = emitted (stop_call r)"
      "responseParts r' = responseParts (stop_call r)"
      "currentSegmentId r' = currentSegmentId (stop_call r)"
      "currentSegmentText r' = currentSegmentText (stop_call r)"
      "askUserTriggered r' = askUserTriggered (stop_call r)"
      "timedOut r' \<longleftrightarrow> timedOut (stop_call r) \<or> TimerFires \<in> set mid"
      "stopRequested (sess (stop_call r)) \<longrightarrow> stopRequested (sess r')"
      "running (stop_call r) \<longrightarrow> running r'"
      by (elim exE conjE)
    with stop show ?thesis
      by (intro exI [of _ r'])
        (simp add: stop_call_frame stop_call_keeps_flag stop_call_running)
  next
    assume timer: "i = TimerFires"
    from Cons.IH [OF rest, of "timer_fires r"] obtain r' where
      "consume e (timer_fires r) mid = Continue r'" "emitted r' = emitted (timer_fires r)"
      "responseParts r' = responseParts (timer_fires r)"
      "currentSegmentId r' = currentSegmentId (timer_fires r)"
      "currentSegmentText r' = currentSegmentText (timer_fires r)"
      "askUserTriggered r' = askUserTriggered (timer_fires r)"
      "timedOut r' \<longleftrightarrow> timedOut (timer_fires r) \<or> TimerFires \<in> set mid"
      "stopRequested (sess (timer_fires r)) \<longrightarrow> stopRequested (sess r')"
      "running (timer_fires r) \<longrightarrow> running r'"
      by (elim exE conjE)
    with timer show ?thesis
      by (intro exI [of _ r'])
        (simp add: timer_fires_frame timer_fires_running)
  qed
qed

text \<open>While the loop goes on, no ask-user request has been triggered.\<close>

lemma process_event_Continue_ask:
  assumes "\<not> askUserTriggered r" "process_event e r ev = Continue r'"
  shows "\<not> askUserTriggered r'"
proof (cases "stopRequested (sess r)")
  case True
  with assms show ?thesis by (simp add: process_event_def)
next
  case False
  let ?r1 = "capture_session_id e r ev"
  have r1: "\<not> askUserTriggered ?r1"
    using assms(1) by (simp add: capture_session_id_frame)
  show ?thesis
  proof (cases "ev_body ev")
    case (Assistant blocks)
    with False assms(2) show ?thesis
      by (cases "process_blocks e ?r1 blocks")
        (auto simp: process_event_def Let_def split: if_splits)
  next
    case (User content)
    have "askUserTriggered (foldl (process_tool_result e) ?r1 blocks) = askUserTriggered ?r1"
      for blocks
      by (rule foldl_preserves [where P = "\<lambda>q. askUserTriggered q = askUserTriggered ?r1"])
        (simp_all add: process_tool_result_frame)
    with False User r1 assms(2) show ?thesis
      by (cases content) (auto simp: process_event_def Let_def)
  next
    case (Result usage)
    with False r1 assms(2) show ?thesis
      by (auto simp: process_event_def complete_query_def Let_def)
  next
    case (OtherEvent ty)
    with False r1 assms(2) show ?thesis
      by (auto simp: process_event_def Let_def)
  qed
qed

lemma consume_Continue_ask:
  assumes "\<not> askUserTriggered r" "consume e r items = Continue r'"
  shows "\<not> askUserTriggered r'"
  using assms
proof (induction items arbitrary: r)
  case Nil
  then show ?case by simp
next
  case (Cons i items)
  show ?case
  proof (cases i)
    case (Ev ev)
    with Cons.prems(2) obtain r1 where r1: "process_event e r ev = Continue r1"
      "consume e r1 items = Continue r'"
      by (cases "process_event e r ev") simp_all
    from Cons.prems(1) r1(1) have "\<not> askUserTriggered r1"
      by (rule process_event_Continue_ask)
    then show ?thesis using r1(2) by (rule Cons.IH)
  next
    case StopCall
    with Cons.prems have "\<not> askUserTriggered (stop_call r)"
      "consume e (stop_call r) items = Continue r'"
      by (simp_all add: stop_call_frame)
    then show ?thesis by (rule Cons.IH)
  next
    case TimerFires
    with Cons.prems have "\<not> askUserTriggered (timer_fires r)"
      "consume e (timer_fires r) items = Continue r'"
      by (simp_all add: timer_fires_frame)
    then show ?thesis by (rule Cons.IH)
  qed
qed

text \<open>The state of an open loop: the query is running and waits for no user.\<close>

lemma open_loop:
  assumes "prepare e s h message = Inr (r0, opts)" "consume e r0 items = Continue r"
  shows "running r" "\<not> askUserTriggered r" "seg_inv r"
proof -
  have "running r0"
    using prepare_Inr(9,10) [OF assms(1)] by (simp add: running_def)
  then have "running (out_state (consume e r0 items))" by (rule running_consume)
  with assms(2) show "running r" by simp
  from prepare_Inr(5) [OF assms(1)] assms(2) show "\<not> askUserTriggered r"
    by (rule consume_Continue_ask)
  have "seg_inv r0"
    using prepare_Inr(1) [OF assms(1)] by (rule seg_inv_start)
  then have "seg_inv (out_state (consume e r0 items))" by (rule seg_inv_consume)
  with assms(2) show "seg_inv r" by simp
qed

lemma run_query_finished:
  assumes "event_loop e r items ending = Exit r1 \<or>
    (event_loop e r items ending = Thrown r1 err \<and> suppressed r1 err)"
  shows "run_query e r items ending = (fst (finish e (cleanup r1)), Inr (response r1))"
  using assms
  by (auto simp: run_query_def case_prod_beta finish_returned response_cleanup)

lemma send_finished:
  assumes "prepare e s h message = Inr (r0, opts)"
    and "event_loop e r0 items ending = Exit r1 \<or>
      (event_loop e r0 items ending = Thrown r1 err \<and> suppressed r1 err)"
  shows "returned (sendMessageStreaming e s h message items ending) = Inr (response r1)"
    and "emitted (final (sendMessageStreaming e s h message items ending)) =
      emitted r1 @ closing r1"
  using assms(1) run_query_finished [OF assms(2)]
  by (simp_all add: sendMessageStreaming_def finish_emitted cleanup_frame closing_cleanup)

lemma timedOut_consume: "timedOut r \<Longrightarrow> timedOut (out_state (consume e r items))"
proof (rule loop_invariant [where P = timedOut])
  show "timedOut (process_tool_result e r b)" if "timedOut r" for r b
    using that by (simp add: process_tool_result_frame)
  show "timedOut (check_ask_user e n r)" if "timedOut r" for r n
    using that by (simp add: check_ask_user_frame)
  show "timedOut (show_tool r n i u)" if "timedOut r" for r n i u
    using that by (simp add: show_tool_frame)
  show "timedOut (capture_session_id e r ev)" if "timedOut r" for r ev
    using that by (simp add: capture_session_id_frame)
qed (auto simp: step_defs Let_def split: option.splits prod.splits)

lemma send_failed:
  assumes "prepare e s h message = Inr (r0, opts)"
    and "event_loop e r0 items ending = Thrown r1 err" "\<not> suppressed r1 err"
  shows "returned (sendMessageStreaming e s h message items ending) = Inl err"
    and "emitted (final (sendMessageStreaming e s h message items ending)) = emitted r1"
  using assms(1) run_query_failed [OF assms(2,3)]
  by (simp_all add: sendMessageStreaming_def cleanup_def)

lemma fresh_notice_id:
  assumes "seg_inv r"
  shows "list_all (\<lambda>x. segmentId x \<noteq> Some (currentSegmentId r + 1)) (emitted r)"
  unfolding list_all_iff
proof
  fix x assume x: "x \<in> set (emitted r)"
  show "segmentId x \<noteq> Some (currentSegmentId r + 1)"
  proof
    assume "segmentId x = Some (currentSegmentId r + 1)"
    with x have "currentSegmentId r + 1 \<in> set (seg_ids (emitted r))"
      by (rule seg_id_in_seg_ids)
    moreover from assms
    have "\<forall>n \<in> set (seg_ids (emitted r)). n \<le> currentSegmentId r"
      by (simp add: seg_inv_def)
    ultimately show False by auto
  qed
qed

lemma timeout_in_loop:
  assumes opened: "prepare e s h message = Inr (r0, opts)"
    and alive: "consume e r0 before = Continue r"
  shows "timedOut (out_state (event_loop e r0 (before @ TimerFires # rest) ending))"
    and "seg_inv (out_state (event_loop e r0 (before @ TimerFires # rest) ending))"
proof -
  have "consume e r0 (before @ TimerFires # rest) = consume e (timer_fires r) rest"
    using alive by (simp add: consume_append)
  moreover have "timedOut (out_state (consume e (timer_fires r) rest))"
    by (rule timedOut_consume) (simp add: timer_fires_frame)
  ultimately show "timedOut (out_state (event_loop e r0 (before @ TimerFires # rest) ending))"
    by (simp add: out_state_event_loop)
  from prepare_Inr(1) [OF opened] have "seg_inv r0" by (rule seg_inv_start)
  then have "seg_inv (out_state (consume e r0 (before @ TimerFires # rest)))"
    by (rule seg_inv_consume)
  then show "seg_inv (out_state (event_loop e r0 (before @ TimerFires # rest) ending))"
    by (simp add: out_state_event_loop)
qed

text \<open>
  C4, as the code has it. The stream is open and the loop waits for the next event
  when the inactivity timer fires; \<open>out\<close> is how the loop is left after that, and the
  state it is left in has timed out. If the loop is left by an error that the \<open>catch\<close>
  block does not swallow, which after a timeout is an error whose text contains
  neither \<open>cancel\<close> nor \<open>abort\<close>, the call fails with that error and returns no
  text. Otherwise, if an ask-user request was triggered, the call makes the \<open>done\<close>
  update and returns the text that stands for the pending request. Otherwise the call
  returns the text accumulated when the loop is left, followed by an empty line and
  the timeout notice, or the notice alone when no text was accumulated; its last
  status updates are the \<open>segment_end\<close> of the open segment, if there is one, then
  the notice as a \<open>text\<close> and as a \<open>segment_end\<close> update for a segment id that no
  earlier update carries, then \<open>done\<close>. When nothing but calls of \<open>stop\<close> and timer
  callbacks happen after the timer has fired, and the stream then ends or raises an
  error whose text contains \<open>cancel\<close> or \<open>abort\<close>, the text and the updates are
  those of the state the loop was in when the timer fired.
\<close>

theorem timeout_outcomes:
  assumes opened: "prepare e s h message = Inr (r0, opts)"
    and alive: "consume e r0 before = Continue r"
    and loop: "event_loop e r0 (before @ TimerFires # rest) ending = out"
  shows "timedOut (out_state out) \<and>
    (\<forall>r1. out \<noteq> Continue r1) \<and>
    (\<forall>r1 err. out = Thrown r1 err \<longrightarrow>
       (suppressed r1 err \<longleftrightarrow>
          str_includes (toLowerCase err) ''cancel'' \<or> str_includes (toLowerCase err) ''abort'')) \<and>
    (\<forall>r1 err. out = Thrown r1 err \<and> \<not> suppressed r1 err \<longrightarrow>
       returned (sendMessageStreaming e s h message (before @ TimerFires # rest) ending) =
         Inl err \<and>
       emitted (final (sendMessageStreaming e s h message (before @ TimerFires # rest) ending)) =
         emitted r1) \<and>
    (\<forall>r1. (out = Exit r1 \<or> (\<exists>err. out = Thrown r1 err \<and> suppressed r1 err)) \<and>
        askUserTriggered r1 \<longrightarrow>
       returned (sendMessageStreaming e s h message (before @ TimerFires # rest) ending) =
         Inr ''[Waiting for user selection]'' \<and>
       emitted (final (sendMessageStreaming e s h message (before @ TimerFires # rest) ending)) =
         emitted r1 @ [done_emission]) \<and>
    (\<forall>r1. (out = Exit r1 \<or> (\<exists>err. out = Thrown r1 err \<and> suppressed r1 err)) \<and>
        \<not> askUserTriggered r1 \<longrightarrow>
       returned (sendMessageStreaming e s h message (before @ TimerFires # rest) ending) =
         Inr (if concat (responseParts r1) \<noteq> []
              then concat (responseParts r1) @ ''\<newline>\<newline>'' @ timeout_notice
              else timeout_notice) \<and>
       emitted (final (sendMessageStreaming e s h message (before @ TimerFires # rest) ending)) =
         emitted r1 @ (if currentSegmentText r1 \<noteq> [] then [flush_emission r1] else []) @
         notice_emissions r1 @ [done_emission] \<and>
       list_all (\<lambda>x. segmentId x \<noteq> Some (currentSegmentId r1 + 1)) (emitted r1)) \<and>
    (external_only rest \<and>
     (ending = Ends \<or>
      (\<exists>err. ending = Throws err \<and>
         (str_includes (toLowerCase err) ''cancel'' \<or> str_includes (toLowerCase err) ''abort'')))
       \<longrightarrow>
       returned (sendMessageStreaming e s h message (before @ TimerFires # rest) ending) =
         Inr (if concat (responseParts r) \<noteq> []
              then concat (responseParts r) @ ''\<newline>\<newline>'' @ timeout_notice
              else timeout_notice) \<and>
       emitted (final (sendMessageStreaming e s h message (before @ TimerFires # rest) ending)) =
         emitted r @ (if currentSegmentText r \<noteq> [] then [flush_emission r] else []) @
         notice_emissions r @ [done_emission] \<and>
       list_all (\<lambda>x. segmentId x \<noteq> Some (currentSegmentId r + 1)) (emitted r))"
proof -
  let ?items = "before @ TimerFires # rest"
  let ?res = "sendMessageStreaming e s h message ?items ending"
  note state = timeout_in_loop [OF opened alive, of rest ending, unfolded loop]
  have timed: "timedOut (out_state out)" by (rule state(1))
  have left: "out \<noteq> Continue r1" for r1
    using event_loop_not_Continue [of e r0 ?items ending r1] loop by simp
  have swallowed: "suppressed r1 err \<longleftrightarrow>
      str_includes (toLowerCase err) ''cancel'' \<or> str_includes (toLowerCase err) ''abort''"
    if "out = Thrown r1 err" for r1 err
    using timed that by (simp add: suppressed_def Let_def)
  have failed: "returned ?res = Inl err \<and> emitted (final ?res) = emitted r1"
    if "out = Thrown r1 err \<and> \<not> suppressed r1 err" for r1 err
    using send_failed [OF opened, of ?items ending r1 err] that loop by simp
  have finished: "returned ?res = Inr (response r1) \<and>
      emitted (final ?res) = emitted r1 @ closing r1 \<and> timedOut r1 \<and> seg_inv r1"
    if "out = Exit r1 \<or> (\<exists>err. out = Thrown r1 err \<and> suppressed r1 err)" for r1
  proof -
    from that obtain err where
      "event_loop e r0 ?items ending = Exit r1 \<or>
        (event_loop e r0 ?items ending = Thrown r1 err \<and> suppressed r1 err)"
      unfolding loop by blast
    note fin = send_finished [OF opened this]
    from that have "out_state out = r1" by auto
    with state fin show ?thesis by simp
  qed
  have waiting: "returned ?res = Inr ''[Waiting for user selection]'' \<and>
      emitted (final ?res) = emitted r1 @ [done_emission]"
    if "(out = Exit r1 \<or> (\<exists>err. out = Thrown r1 err \<and> suppressed r1 err)) \<and>
      askUserTriggered r1" for r1
    using finished [of r1] that by (simp add: response_def closing_def)
  have partial: "returned ?res =
        Inr (if concat (responseParts r1) \<noteq> []
             then concat (responseParts r1) @ ''\<newline>\<newline>'' @ timeout_notice
             else timeout_notice) \<and>
      emitted (final ?res) =
        emitted r1 @ (if currentSegmentText r1 \<noteq> [] then [flush_emission r1] else []) @
        notice_emissions r1 @ [done_emission] \<and>
      list_all (\<lambda>x. segmentId x \<noteq> Some (currentSegmentId r1 + 1)) (emitted r1)"
    if "(out = Exit r1 \<or> (\<exists>err. out = Thrown r1 err \<and> suppressed r1 err)) \<and>
      \<not> askUserTriggered r1" for r1
  proof -
    from that finished [of r1] have fin: "returned ?res = Inr (response r1)"
      "emitted (final ?res) = emitted r1 @ closing r1" "timedOut r1" "seg_inv r1"
      by simp_all
    from that have no_ask: "\<not> askUserTriggered r1" by simp
    have "response r1 =
        (if concat (responseParts r1) \<noteq> []
         then concat (responseParts r1) @ ''\<newline>\<newline>'' @ timeout_notice
         else timeout_notice)"
      using fin(3) no_ask by (simp add: response_def)
    moreover have "closing r1 =
        (if currentSegmentText r1 \<noteq> [] then [flush_emission r1] else []) @
        notice_emissions r1 @ [done_emission]"
      using fin(3) no_ask by (simp add: closing_def)
    ultimately show ?thesis
      using fin(1,2) fresh_notice_id [OF fin(4)] by simp
  qed
  have waited: "returned ?res =
        Inr (if concat (responseParts r) \<noteq> []
             then concat (responseParts r) @ ''\<newline>\<newline>'' @ timeout_notice
             else timeout_notice) \<and>
      emitted (final ?res) =
        emitted r @ (if currentSegmentText r \<noteq> [] then [flush_emission r] else []) @
        notice_emissions r @ [done_emission] \<and>
      list_all (\<lambda>x. segmentId x \<noteq> Some (currentSegmentId r + 1)) (emitted r)"
    if "external_only rest \<and>
      (ending = Ends \<or>
       (\<exists>err. ending = Throws err \<and>
          (str_includes (toLowerCase err) ''cancel'' \<or>
           str_includes (toLowerCase err) ''abort'')))"
  proof -
    from that have "external_only (TimerFires # rest)"
      by (simp add: external_only_def)
    from consume_external [OF this, of e r] obtain r' where r':
      "consume e r (TimerFires # rest) = Continue r'" "emitted r' = emitted r"
      "responseParts r' = responseParts r" "currentSegmentId r' = currentSegmentId r"
      "currentSegmentText r' = currentSegmentText r" "askUserTriggered r' = askUserTriggered r"
      by (elim exE conjE)
    from open_loop(2) [OF opened alive] r'(6) have no_ask: "\<not> askUserTriggered r'" by simp
    from alive r'(1) have all: "consume e r0 ?items = Continue r'"
      by (simp add: consume_append)
    have stays: "flush_emission r' = flush_emission r" "notice_emissions r' = notice_emissions r"
      by (simp_all add: flush_emission_def notice_emissions_def r'(4,5))
    from that have "ending = Ends \<or>
      (\<exists>err. ending = Throws err \<and>
         (str_includes (toLowerCase err) ''cancel'' \<or> str_includes (toLowerCase err) ''abort''))"
      by simp
    then have "out = Exit r' \<or> (\<exists>err. out = Thrown r' err \<and> suppressed r' err)"
    proof
      assume "ending = Ends"
      with all loop show ?thesis by (simp add: event_loop_def)
    next
      assume "\<exists>err. ending = Throws err \<and>
        (str_includes (toLowerCase err) ''cancel'' \<or> str_includes (toLowerCase err) ''abort'')"
      then obtain err where err: "ending = Throws err"
        "str_includes (toLowerCase err) ''cancel'' \<or> str_includes (toLowerCase err) ''abort''"
        by (elim exE conjE)
      from all err(1) loop have thrown: "out = Thrown r' err"
        by (simp add: event_loop_def)
      with err(2) swallowed [OF thrown] show ?thesis by blast
    qed
    with no_ask partial [of r'] show ?thesis
      by (simp add: r'(2-5) stays)
  qed
  from timed left swallowed failed waiting partial waited show ?thesis
    by (intro conjI allI impI) blast+
qed

theorem timeout_outcomes_witness:
  "returned (demo_call (demo_partial_stream @ [TimerFires])
      (Throws ''AbortError: The operation was aborted'')) =
     Inr (''Here are the result'' @ ''\<newline>\<newline>'' @ timeout_notice) \<and>
   map (\<lambda>x. (kind x, segmentId x))
     (emitted (final (demo_call (demo_partial_stream @ [TimerFires])
        (Throws ''AbortError: The operation was aborted'')))) =
     [(SegmentEnd, Some 0), (Text, Some 1), (SegmentEnd, Some 1), (Done, None)]"
proof -
  let ?r = "demo_after demo_partial_stream"
  obtain r0 opts where opened: "prepare demo_env demo_session [] ''hello'' = Inr (r0, opts)"
    using demo_prepared by blast
  have "case consume demo_env demo_opened demo_partial_stream of
      Continue r \<Rightarrow> True | _ \<Rightarrow> False"
    by code_simp
  with opened have alive: "consume demo_env r0 demo_partial_stream = Continue ?r"
    by (rule demo_alive)
  have "str_includes (toLowerCase ''AbortError: The operation was aborted'') ''abort''"
    by code_simp
  then have quiet: "external_only [] \<and>
      (Throws ''AbortError: The operation was aborted'' = Ends \<or>
       (\<exists>err. Throws ''AbortError: The operation was aborted'' = Throws err \<and>
          (str_includes (toLowerCase err) ''cancel'' \<or>
           str_includes (toLowerCase err) ''abort'')))"
    by (simp add: external_only_def)
  have state: "responseParts ?r = [''Here are the result'']"
    "currentSegmentText ?r = ''Here are the result''" "currentSegmentId ?r = 0"
    "emitted ?r = []"
    by code_simp+
  note all = timeout_outcomes [OF opened alive refl, where rest = "[]"
      and ending = "Throws ''AbortError: The operation was aborted''"]
  from all [THEN conjunct2, THEN conjunct2, THEN conjunct2, THEN conjunct2, THEN conjunct2,
      THEN conjunct2, THEN mp, OF quiet]
  show ?thesis
    by (simp add: demo_call_def state flush_emission_def notice_emissions_def
        done_emission_def)
qed

text \<open>
  The claim C4 as the specification words it, that the partial response is never
  discarded on timeout, fails in two ways. When the stream raises an error that says
  neither \<open>cancel\<close> nor \<open>abort\<close> after the timer has fired, the call fails with that
  error, makes no update and returns no text. When an ask-user request is triggered
  after the timer has fired, the call returns the text that stands for the pending
  request, without the accumulated text and without the notice.
\<close>

theorem timeout_discards_partial_counterexample:
  "responseParts (demo_after (demo_partial_stream @ [TimerFires])) = [''Here are the result''] \<and>
   timedOut (demo_after (demo_partial_stream @ [TimerFires])) \<and>
   returned (demo_call (demo_partial_stream @ [TimerFires])
      (Throws ''Error: Claude Code process exited with code 143'')) =
     Inl ''Error: Claude Code process exited with code 143'' \<and>
   emitted (final (demo_call (demo_partial_stream @ [TimerFires])
      (Throws ''Error: Claude Code process exited with code 143''))) = [] \<and>
   returned (demo_call (demo_partial_stream @ TimerFires # demo_ask_stream) Ends) =
     Inr ''[Waiting for user selection]'' \<and>
   map kind (emitted (final (demo_call (demo_partial_stream @ TimerFires # demo_ask_stream)
      Ends))) = [SegmentEnd, Text, Done]"
  by code_simp

lemma send_finished_parts:
  assumes "prepare e s h message = Inr (r0, opts)"
    and "event_loop e r0 items ending = Exit r1 \<or>
      (event_loop e r0 items ending = Thrown r1 err \<and> suppressed r1 err)"
  shows "responseParts (final (sendMessageStreaming e s h message items ending)) =
    responseParts r1"
  using assms(1) run_query_finished [OF assms(2)]
  by (simp add: sendMessageStreaming_def finish_frame cleanup_frame)

lemma stop_while_open:
  assumes opened: "prepare e s h message = Inr (r0, opts)"
    and alive: "consume e r0 before = Continue r"
    and mid: "external_only mid"
  shows "fst (stop (sess r)) = Stopped"
    and "returned (sendMessageStreaming e s h message
            (before @ StopCall # mid @ Ev ev # rest) ending) =
          Inr (if timedOut r \<or> TimerFires \<in> set mid
               then (if concat (responseParts r) \<noteq> []
                     then concat (responseParts r) @ ''\<newline>\<newline>'' @ timeout_notice
                     else timeout_notice)
               else if concat (responseParts r) \<noteq> [] then concat (responseParts r)
               else ''No response from Claude.'')"
    and "emitted (final (sendMessageStreaming e s h message
            (before @ StopCall # mid @ Ev ev # rest) ending)) =
          emitted r @ (if currentSegmentText r \<noteq> [] then [flush_emission r] else []) @
          (if timedOut r \<or> TimerFires \<in> set mid then notice_emissions r else []) @
          [done_emission]"
    and "responseParts (final (sendMessageStreaming e s h message
            (before @ StopCall # mid @ Ev ev # rest) ending)) = responseParts r"
proof -
  let ?items = "before @ StopCall # mid @ Ev ev # rest"
  note loop = open_loop [OF opened alive]
  show "fst (stop (sess r)) = Stopped"
    by (rule stop_call_running(3) [OF loop(1)])
  from consume_external [OF mid, of e "stop_call r"] obtain r' where r':
    "consume e (stop_call r) mid = Continue r'" "emitted r' = emitted (stop_call r)"
    "responseParts r' = responseParts (stop_call r)"
    "currentSegmentId r' = currentSegmentId (stop_call r)"
    "currentSegmentText r' = currentSegmentText (stop_call r)"
    "askUserTriggered r' = askUserTriggered (stop_call r)"
    "timedOut r' \<longleftrightarrow> timedOut (stop_call r) \<or> TimerFires \<in> set mid"
    "stopRequested (sess (stop_call r)) \<longrightarrow> stopRequested (sess r')"
    by (elim exE conjE)
  from r'(8) stop_call_running(1) [OF loop(1)] have flag: "stopRequested (sess r')"
    by simp
  then have "process_event e r' ev = Exit r'"
    by (simp add: process_event_def)
  with alive r'(1) have "consume e r0 ?items = Exit r'"
    by (simp add: consume_append)
  then have left: "event_loop e r0 ?items ending = Exit r' \<or>
      (event_loop e r0 ?items ending = Thrown r' [] \<and> suppressed r' [])"
    by (simp add: event_loop_def)
  note fin = send_finished [OF opened left] send_finished_parts [OF opened left]
  from loop(2) r'(6) have no_ask: "\<not> askUserTriggered r'"
    by (simp add: stop_call_frame)
  from r'(7) have timed: "timedOut r' \<longleftrightarrow> timedOut r \<or> TimerFires \<in> set mid"
    by (simp add: stop_call_frame)
  have same: "emitted r' = emitted r" "responseParts r' = responseParts r"
    "currentSegmentId r' = currentSegmentId r" "currentSegmentText r' = currentSegmentText r"
    using r'(2-5) by (simp_all add: stop_call_frame)
  then have stays: "flush_emission r' = flush_emission r"
    "notice_emissions r' = notice_emissions r"
    by (simp_all add: flush_emission_def notice_emissions_def)
  show "returned (sendMessageStreaming e s h message ?items ending) =
      Inr (if timedOut r \<or> TimerFires \<in> set mid
           then (if concat (responseParts r) \<noteq> []
                 then concat (responseParts r) @ ''\<newline>\<newline>'' @ timeout_notice
                 else timeout_notice)
           else if concat (responseParts r) \<noteq> [] then concat (responseParts r)
           else ''No response from Claude.'')"
    using fin(1) no_ask timed by (simp add: response_def same)
  show "emitted (final (sendMessageStreaming e s h message ?items ending)) =
      emitted r @ (if currentSegmentText r \<noteq> [] then [flush_emission r] else []) @
      (if timedOut r \<or> TimerFires \<in> set mid then notice_emissions r else []) @
      [done_emission]"
    using fin(2) no_ask timed by (simp add: closing_def same stays)
  show "responseParts (final (sendMessageStreaming e s h message ?items ending)) =
      responseParts r"
    using fin(3) by (simp add: same)
qed

text \<open>
  C1, as the code has it. \<open>stop\<close> answers by the state of the session: \<open>stopped\<close>
  when a query is running and has its abort controller, which it aborts; \<open>pending\<close>
  when only the processing phase is on; \<open>false\<close> otherwise. After \<open>pending\<close>, the
  next call of \<open>sendMessageStreaming\<close> clears the flag and fails with \<open>Query
  cancelled\<close>; it opens no stream and makes no status update. While the stream is
  open \<open>stop\<close> answers \<open>stopped\<close>, and the next event that arrives ends the loop
  without being processed, whatever it is and whatever follows it: the response parts
  stay those of the state \<open>stop\<close> was called in, the call returns their text (or, if
  there is none, the text that says so), and the status updates that follow the stop
  are exactly the \<open>segment_end\<close> of the open segment, if there is one, and \<open>done\<close>.
  Only if the inactivity timer has fired during the query does the timeout notice come
  between them, as a \<open>text\<close> and a \<open>segment_end\<close> update, and after the returned
  text.
\<close>

theorem stop_three_ways:
  "(isQueryRunning s \<and> abortController s \<noteq> None \<longrightarrow>
      stop s = (Stopped, s\<lparr>stopRequested := True, abortController := Some True\<rparr>)) \<and>
   (\<not> (isQueryRunning s \<and> abortController s \<noteq> None) \<and> isProcessing s \<longrightarrow>
      stop s = (Pending, s\<lparr>stopRequested := True\<rparr>) \<and>
      returned (sendMessageStreaming e (snd (stop s)) h message items ending) =
        Inl ''Error: Query cancelled'' \<and>
      opened (sendMessageStreaming e (snd (stop s)) h message items ending) = None \<and>
      emitted (final (sendMessageStreaming e (snd (stop s)) h message items ending)) = [] \<and>
      \<not> stopRequested (sess (final (sendMessageStreaming e (snd (stop s)) h message items
          ending)))) \<and>
   (\<not> (isQueryRunning s \<and> abortController s \<noteq> None) \<and> \<not> isProcessing s \<longrightarrow>
      stop s = (NothingRunning, s)) \<and>
   (prepare e s' h message = Inr (r0, opts) \<and> consume e r0 before = Continue r \<and>
    external_only mid \<longrightarrow>
      fst (stop (sess r)) = Stopped \<and>
      returned (sendMessageStreaming e s' h message
         (before @ StopCall # mid @ Ev ev # rest) ending) =
        Inr (if timedOut r \<or> TimerFires \<in> set mid
             then (if concat (responseParts r) \<noteq> []
                   then concat (responseParts r) @ ''\<newline>\<newline>'' @ timeout_notice
                   else timeout_notice)
             else if concat (responseParts r) \<noteq> [] then concat (responseParts r)
             else ''No response from Claude.'') \<and>
      emitted (final (sendMessageStreaming e s' h message
         (before @ StopCall # mid @ Ev ev # rest) ending)) =
        emitted r @ (if currentSegmentText r \<noteq> [] then [flush_emission r] else []) @
        (if timedOut r \<or> TimerFires \<in> set mid then notice_emissions r else []) @
        [done_emission] \<and>
      responseParts (final (sendMessageStreaming e s' h message
         (before @ StopCall # mid @ Ev ev # rest) ending)) = responseParts r)"
proof -
  have c1: "isQueryRunning s \<and> abortController s \<noteq> None \<longrightarrow>
      stop s = (Stopped, s\<lparr>stopRequested := True, abortController := Some True\<rparr>)"
    by (simp add: stop_def)
  have c3: "\<not> (isQueryRunning s \<and> abortController s \<noteq> None) \<and> \<not> isProcessing s \<longrightarrow>
      stop s = (NothingRunning, s)"
    by (auto simp: stop_def)
  have pending: "stop s = (Pending, s\<lparr>stopRequested := True\<rparr>) \<and>
      returned (sendMessageStreaming e (snd (stop s)) h message items ending) =
        Inl ''Error: Query cancelled'' \<and>
      opened (sendMessageStreaming e (snd (stop s)) h message items ending) = None \<and>
      emitted (final (sendMessageStreaming e (snd (stop s)) h message items ending)) = [] \<and>
      \<not> stopRequested (sess (final (sendMessageStreaming e (snd (stop s)) h message items
          ending)))"
    if "\<not> (isQueryRunning s \<and> abortController s \<noteq> None) \<and> isProcessing s"
  proof -
    from that have st: "stop s = (Pending, s\<lparr>stopRequested := True\<rparr>)"
      by (auto simp: stop_def)
    have "\<exists>res. prepare e (s\<lparr>stopRequested := True\<rparr>) h message = Inl res"
      by (simp add: prepare_def start_state_def read_clock_def Let_def case_prod_beta)
    then obtain res where res: "prepare e (s\<lparr>stopRequested := True\<rparr>) h message = Inl res"
      by blast
    then have "sendMessageStreaming e (s\<lparr>stopRequested := True\<rparr>) h message items ending = res"
      by (simp add: sendMessageStreaming_def)
    with prepare_Inl [OF res] st show ?thesis by simp
  qed
  then have c2: "\<not> (isQueryRunning s \<and> abortController s \<noteq> None) \<and> isProcessing s \<longrightarrow>
      stop s = (Pending, s\<lparr>stopRequested := True\<rparr>) \<and>
      returned (sendMessageStreaming e (snd (stop s)) h message items ending) =
        Inl ''Error: Query cancelled'' \<and>
      opened (sendMessageStreaming e (snd (stop s)) h message items ending) = None \<and>
      emitted (final (sendMessageStreaming e (snd (stop s)) h message items ending)) = [] \<and>
      \<not> stopRequested (sess (final (sendMessageStreaming e (snd (stop s)) h message items
          ending)))"
    by (rule impI)
  have c4: "prepare e s' h message = Inr (r0, opts) \<and> consume e r0 before = Continue r \<and>
    external_only mid \<longrightarrow>
      fst (stop (sess r)) = Stopped \<and>
      returned (sendMessageStreaming e s' h message
         (before @ StopCall # mid @ Ev ev # rest) ending) =
        Inr (if timedOut r \<or> TimerFires \<in> set mid
             then (if concat (responseParts r) \<noteq> []
                   then concat (responseParts r) @ ''\<newline>\<newline>'' @ timeout_notice
                   else timeout_notice)
             else if concat (responseParts r) \<noteq> [] then concat (responseParts r)
             else ''No response from Claude.'') \<and>
      emitted (final (sendMessageStreaming e s' h message
         (before @ StopCall # mid @ Ev ev # rest) ending)) =
        emitted r @ (if currentSegmentText r \<noteq> [] then [flush_emission r] else []) @
        (if timedOut r \<or> TimerFires \<in> set mid then notice_emissions r else []) @
        [done_emission] \<and>
      responseParts (final (sendMessageStreaming e s' h message
         (before @ StopCall # mid @ Ev ev # rest) ending)) = responseParts r"
  proof (rule impI)
    assume "prepare e s' h message = Inr (r0, opts) \<and> consume e r0 before = Continue r \<and>
      external_only mid"
    then have h: "prepare e s' h message = Inr (r0, opts)" "consume e r0 before = Continue r"
      "external_only mid"
      by simp_all
    show "fst (stop (sess r)) = Stopped \<and>
      returned (sendMessageStreaming e s' h message
         (before @ StopCall # mid @ Ev ev # rest) ending) =
        Inr (if timedOut r \<or> TimerFires \<in> set mid
             then (if concat (responseParts r) \<noteq> []
                   then concat (responseParts r) @ ''\<newline>\<newline>'' @ timeout_notice
                   else timeout_notice)
             else if concat (responseParts r) \<noteq> [] then concat (responseParts r)
             else ''No response from Claude.'') \<and>
      emitted (final (sendMessageStreaming e s' h message
         (before @ StopCall # mid @ Ev ev # rest) ending)) =
        emitted r @ (if currentSegmentText r \<noteq> [] then [flush_emission r] else []) @
        (if timedOut r \<or> TimerFires \<in> set mid then notice_emissions r else []) @
        [done_emission] \<and>
      responseParts (final (sendMessageStreaming e s' h message
         (before @ StopCall # mid @ Ev ev # rest) ending)) = responseParts r"
      by (intro conjI) (rule stop_while_open [OF h])+
  qed
  show ?thesis
    by (rule conjI [OF c1 conjI [OF c2 conjI [OF c3 c4]]])
qed

theorem stop_three_ways_witness:
  "fst (stop demo_running_session) = Stopped \<and>
   fst (stop demo_session) = Pending \<and>
   returned (sendMessageStreaming demo_env (snd (stop demo_session)) [] ''hello''
      demo_tool_stream Ends) = Inl ''Error: Query cancelled'' \<and>
   opened (sendMessageStreaming demo_env (snd (stop demo_session)) [] ''hello''
      demo_tool_stream Ends) = None \<and>
   fst (stop new_session) = NothingRunning \<and>
   fst (stop (sess (demo_after demo_partial_stream))) = Stopped \<and>
   returned (demo_call (demo_partial_stream @ [StopCall, demo_late_event]) Ends) =
     Inr ''Here are the result'' \<and>
   emitted (final (demo_call (demo_partial_stream @ [StopCall, demo_late_event]) Ends)) =
     [\<lparr>kind = SegmentEnd, payload = ''Here are the result'', segmentId = Some 0,
       toolId = None, dispatch = Awaited\<rparr>,
      \<lparr>kind = Done, payload = [], segmentId = None, toolId = None, dispatch = Awaited\<rparr>]"
proof -
  let ?r = "demo_after demo_partial_stream"
  have p1: "isQueryRunning demo_running_session \<and> abortController demo_running_session \<noteq> None"
    by (simp add: demo_running_session_def)
  have p2: "\<not> (isQueryRunning demo_session \<and> abortController demo_session \<noteq> None) \<and>
      isProcessing demo_session"
    by (simp add: demo_session_def new_session_def)
  have p3: "\<not> (isQueryRunning new_session \<and> abortController new_session \<noteq> None) \<and>
      \<not> isProcessing new_session"
    by (simp add: new_session_def)
  obtain r0 opts where opened: "prepare demo_env demo_session [] ''hello'' = Inr (r0, opts)"
    using demo_prepared by blast
  have "case consume demo_env demo_opened demo_partial_stream of
      Continue r \<Rightarrow> True | _ \<Rightarrow> False"
    by code_simp
  with opened have alive: "consume demo_env r0 demo_partial_stream = Continue ?r"
    by (rule demo_alive)
  have p4: "prepare demo_env demo_session [] ''hello'' = Inr (r0, opts) \<and>
      consume demo_env r0 demo_partial_stream = Continue ?r \<and> external_only []"
    using opened alive by (simp add: external_only_def)
  have state: "\<not> timedOut ?r" "responseParts ?r = [''Here are the result'']"
    "currentSegmentText ?r = ''Here are the result''" "currentSegmentId ?r = 0"
    "emitted ?r = []"
    by code_simp+
  note c1 = stop_three_ways [where s = demo_running_session, THEN conjunct1, THEN mp, OF p1]
  note c2 = stop_three_ways [where s = demo_session and e = demo_env and h = "[]"
      and message = "''hello''" and items = demo_tool_stream and ending = Ends,
      THEN conjunct2, THEN conjunct1, THEN mp, OF p2]
  note c3 = stop_three_ways [where s = new_session,
      THEN conjunct2, THEN conjunct2, THEN conjunct1, THEN mp, OF p3]
  note c4 = stop_three_ways [where ev = "Event (Some ''sess-1'') (Assistant [TextBlock '' of the search''])"
      and rest = "[]" and ending = Ends,
      THEN conjunct2, THEN conjunct2, THEN conjunct2, THEN mp, OF p4]
  from c1 have w1: "fst (stop demo_running_session) = Stopped" by simp
  from c2 have "stop demo_session = (Pending, demo_session\<lparr>stopRequested := True\<rparr>)"
    by (rule conjunct1)
  then have w2a: "fst (stop demo_session) = Pending" by simp
  note w2b = c2 [THEN conjunct2, THEN conjunct1]
  note w2c = c2 [THEN conjunct2, THEN conjunct2, THEN conjunct1]
  from c3 have w3: "fst (stop new_session) = NothingRunning" by simp
  note w4a = c4 [THEN conjunct1]
  from c4 [THEN conjunct2, THEN conjunct1]
  have w4b: "returned (demo_call (demo_partial_stream @ [StopCall, demo_late_event]) Ends) =
      Inr ''Here are the result''"
    by (simp add: demo_call_def demo_late_event_def state)
  from c4 [THEN conjunct2, THEN conjunct2, THEN conjunct1]
  have w4c: "emitted (final (demo_call (demo_partial_stream @ [StopCall, demo_late_event])
      Ends)) =
      [\<lparr>kind = SegmentEnd, payload = ''Here are the result'', segmentId = Some 0,
        toolId = None, dispatch = Awaited\<rparr>,
       \<lparr>kind = Done, payload = [], segmentId = None, toolId = None, dispatch = Awaited\<rparr>]"
    by (simp add: demo_call_def demo_late_event_def state flush_emission_def
        done_emission_def)
  from w1 w2a w2b w2c w3 w4a w4b w4c show ?thesis by (intro conjI)
qed

text \<open>
  The claim C1 as the specification words it, that no \<open>text\<close> update follows once
  the stop is observed, fails when the inactivity timer has fired in the same query:
  \<open>stop\<close> answers \<open>stopped\<close>, no update has been made so far, the event that arrives
  next is not processed (its text is not in the response), and the timeout notice is
  still sent as a \<open>text\<close> update.
\<close>

theorem no_text_after_stop_counterexample:
  "fst (stop (sess (demo_after (demo_partial_stream @ [TimerFires])))) = Stopped \<and>
   emitted (demo_after (demo_partial_stream @ [TimerFires, StopCall])) = [] \<and>
   stopRequested (sess (demo_after (demo_partial_stream @ [TimerFires, StopCall]))) \<and>
   returned (demo_call (demo_partial_stream @ [TimerFires, StopCall, demo_late_event]) Ends) =
     Inr (''Here are the result'' @ ''\<newline>\<newline>'' @ timeout_notice) \<and>
   map kind (emitted (final
     (demo_call (demo_partial_stream @ [TimerFires, StopCall, demo_late_event]) Ends))) =
     [SegmentEnd, Text, SegmentEnd, Done]"
  by code_simp

subsection \<open>The session file over a series of calls\<close>

lemma saveSession_session:
  "sess (saveSession e q) = sess q"
  by (simp add: saveSession_def read_clock_def Let_def split: option.splits)

lemma saved_consume: "saved H r \<Longrightarrow> saved H (out_state (consume e r items))"
proof (rule loop_invariant [where P = "saved H"])
  show "saved H (process_tool_result e r b)" if "saved H r" for r b
    using that by (simp add: saved_def process_tool_result_frame)
  show "saved H (check_ask_user e n r)" if "saved H r" for r n
    using that by (simp add: saved_def check_ask_user_frame)
  show "saved H (capture_session_id e r ev)" if "saved H r" for r ev
    using that by (simp add: saved_def capture_session_id_def)
qed (auto simp: saved_def process_thinking_def process_text_def statusCallback_def
    close_segment_def show_tool_def read_clock_def complete_query_def stop_call_def stop_def
    timer_fires_def Let_def split: option.splits prod.splits)

lemma unique_ids_consume: "unique_ids r \<Longrightarrow> unique_ids (out_state (consume e r items))"
proof (rule loop_invariant [where P = unique_ids])
  show "unique_ids (process_tool_result e r b)" if "unique_ids r" for r b
    using that by (simp add: unique_ids_def process_tool_result_frame)
  show "unique_ids (check_ask_user e n r)" if "unique_ids r" for r n
    using that by (simp add: unique_ids_def check_ask_user_frame)
  show "unique_ids (capture_session_id e r ev)" if "unique_ids r" for r ev
    using that
    by (auto simp: unique_ids_def capture_session_id_def saveSession_def read_clock_def Let_def
        upsert_distinct split: option.splits)
qed (auto simp: unique_ids_def process_thinking_def process_text_def statusCallback_def
    close_segment_def show_tool_def read_clock_def complete_query_def stop_call_def stop_def
    timer_fires_def Let_def split: option.splits prod.splits)

lemma send_history_cancelled:
  assumes "prepare e s h message = Inl res"
  shows "history (final (sendMessageStreaming e s h message items ending)) = h"
proof -
  from assms have "history (final res) = h"
    by (auto simp: prepare_def start_state_def read_clock_def Let_def
        split: if_splits prod.splits)
  with assms show ?thesis by (simp add: sendMessageStreaming_def)
qed

lemma send_history_opened:
  assumes "prepare e s h message = Inr (r0, opts)"
  shows "history (final (sendMessageStreaming e s h message items ending)) =
    history (out_state (consume e r0 items))"
proof -
  have "history (fst (run_query e r0 items ending)) =
      history (out_state (event_loop e r0 items ending))"
    by (cases "event_loop e r0 items ending")
      (simp_all add: run_query_def case_prod_beta finish_frame cleanup_frame read_clock_def)
  with assms show ?thesis
    by (simp add: sendMessageStreaming_def case_prod_beta out_state_event_loop)
qed

lemma send_unique_ids:
  assumes "distinct (map session_id h)"
  shows "distinct (map session_id
    (history (final (sendMessageStreaming e s h message items ending))))"
proof (cases "prepare e s h message")
  case (Inl res)
  with assms show ?thesis by (simp add: send_history_cancelled)
next
  case (Inr p)
  obtain r0 opts where opened: "prepare e s h message = Inr (r0, opts)"
    using Inr by (cases p) simp
  from prepare_Inr(13) [OF opened] assms have "unique_ids r0"
    by (simp add: unique_ids_def)
  then have "unique_ids (out_state (consume e r0 items))" by (rule unique_ids_consume)
  then show ?thesis
    by (simp add: send_history_opened [OF opened] unique_ids_def)
qed

lemma prepare_new:
  assumes "sessionId s = None" "\<not> stopRequested s"
  shows "\<exists>r0 opts. prepare e s h message = Inr (r0, opts) \<and> history r0 = h \<and>
    sessionId (sess r0) = None \<and> clock_reads r0 = 2 \<and>
    conversationTitle (sess r0) = conversationTitle s \<and> \<not> stopRequested (sess r0)"
  using assms
  by (simp add: prepare_def start_state_def read_clock_def Let_def case_prod_beta isActive_def)

lemma process_event_captured:
  assumes "\<not> stopRequested (sess r)"
  shows "process_event e r ev = process_event e (capture_session_id e r ev) ev"
proof -
  let ?r = "capture_session_id e r ev"
  have "stopRequested (sess ?r) = stopRequested (sess r)"
    by (simp add: capture_session_id_def saveSession_session)
  moreover have "capture_session_id e ?r ev = ?r"
    by (simp add: capture_session_id_def saveSession_session)
  ultimately show ?thesis
    using assms by (simp add: process_event_def)
qed

lemma send_history_new:
  assumes "sessionId s = None" "\<not> stopRequested s" "sid \<noteq> []" "ev_session_id ev = Some sid"
  shows "history (final (sendMessageStreaming e s h message (Ev ev # rest) ending)) =
    upsert \<lparr> session_id = sid, saved_at = Date_now e 2, working_dir = WORKING_DIR e,
             title = (case conversationTitle s of
                        Some t \<Rightarrow> if t \<noteq> [] then t else ''Sessione senza titolo''
                      | None \<Rightarrow> ''Sessione senza titolo'') \<rparr> h"
proof -
  let ?n = "\<lparr> session_id = sid, saved_at = Date_now e 2, working_dir = WORKING_DIR e,
             title = (case conversationTitle s of
                        Some t \<Rightarrow> if t \<noteq> [] then t else ''Sessione senza titolo''
                      | None \<Rightarrow> ''Sessione senza titolo'') \<rparr>"
  from prepare_new [OF assms(1,2), of e h message] obtain r0 opts where
    opened: "prepare e s h message = Inr (r0, opts)" and r0: "history r0 = h"
      "sessionId (sess r0) = None" "clock_reads r0 = 2"
      "conversationTitle (sess r0) = conversationTitle s" "\<not> stopRequested (sess r0)"
    by (elim exE conjE)
  let ?r = "capture_session_id e r0 ev"
  have cap: "?r = saveSession e (r0\<lparr>sess := (sess r0)\<lparr>sessionId := Some sid\<rparr>\<rparr>)"
    using r0(2) assms(3,4) by (simp add: capture_session_id_def)
  have "history ?r = upsert ?n h"
    unfolding cap using saveSession_history [of "r0\<lparr>sess := (sess r0)\<lparr>sessionId := Some sid\<rparr>\<rparr>" sid e]
      assms(3) r0(1,3,4)
    by simp
  moreover have "truthy (sessionId (sess ?r))"
    unfolding cap using assms(3) by (simp add: saveSession_session)
  ultimately have "saved (upsert ?n h) ?r" by (simp add: saved_def)
  then have "saved (upsert ?n h) (out_state (consume e ?r (Ev ev # rest)))"
    by (rule saved_consume)
  moreover have "consume e r0 (Ev ev # rest) = consume e ?r (Ev ev # rest)"
    using process_event_captured [OF r0(5), of e ev] by simp
  ultimately have "history (out_state (consume e r0 (Ev ev # rest))) = upsert ?n h"
    by (simp add: saved_def)
  moreover note send_history_opened [OF opened, of "Ev ev # rest" ending]
  ultimately show ?thesis by simp
qed


lemma history_after_unique:
  "distinct (map session_id h) \<Longrightarrow> distinct (map session_id (history_after e h calls))"
proof (induction calls arbitrary: h)
  case Nil
  then show ?case by simp
next
  case (Cons c calls)
  obtain s message items ending where c: "c = (s, message, items, ending)"
    by (cases c)
  from Cons.prems have "distinct (map session_id
      (history (final (sendMessageStreaming e s h message items ending))))"
    by (rule send_unique_ids)
  then show ?case unfolding c by (simp add: Cons.IH)
qed

lemma new_session_call_saved:
  assumes "new_session_call sid (s, message, items, ending)"
  shows "\<exists>n. session_id n = sid \<and>
    history (final (sendMessageStreaming e s h message items ending)) = upsert n h"
proof -
  from assms obtain ev rest where items: "items = Ev ev # rest"
    and ev: "ev_session_id ev = Some sid"
    by (auto simp: new_session_call_def split: list.splits item.splits)
  from assms have s: "sessionId s = None" "\<not> stopRequested s" "sid \<noteq> []"
    by (simp_all add: new_session_call_def)
  let ?n = "\<lparr> session_id = sid, saved_at = Date_now e 2, working_dir = WORKING_DIR e,
             title = (case conversationTitle s of
                        Some t \<Rightarrow> if t \<noteq> [] then t else ''Sessione senza titolo''
                      | None \<Rightarrow> ''Sessione senza titolo'') \<rparr>"
  from send_history_new [OF s ev, of e h message rest ending]
  have "session_id ?n = sid \<and>
      history (final (sendMessageStreaming e s h message items ending)) = upsert ?n h"
    unfolding items by simp
  then show ?thesis by (rule exI)
qed

lemma history_after_new_sessions:
  assumes "list_all2 new_session_call sids calls"
  shows "\<exists>rs. map session_id rs = sids \<and>
    history_after e h calls = foldl (\<lambda>sessions r. upsert r sessions) h rs"
  using assms
proof (induction sids calls arbitrary: h rule: list_all2_induct)
  case Nil
  have "map session_id [] = [] \<and>
      history_after e h [] = foldl (\<lambda>sessions r. upsert r sessions) h []"
    by simp
  then show ?case by (rule exI)
next
  case (Cons sid sids c calls)
  obtain s message items ending where c: "c = (s, message, items, ending)"
    by (cases c)
  from Cons(1) obtain n where n: "session_id n = sid"
    "history (final (sendMessageStreaming e s h message items ending)) = upsert n h"
    unfolding c using new_session_call_saved by blast
  from Cons.IH [of "upsert n h"] obtain rs where rs: "map session_id rs = sids"
    "history_after e (upsert n h) calls = foldl (\<lambda>sessions r. upsert r sessions) (upsert n h) rs"
    by (elim exE conjE)
  have "map session_id (n # rs) = sid # sids \<and>
      history_after e h (c # calls) = foldl (\<lambda>sessions r. upsert r sessions) h (n # rs)"
    using n rs by (simp add: c)
  then show ?case by (rule exI)
qed

text \<open>
  C7. After any series of calls of \<open>sendMessageStreaming\<close> that starts with an empty
  session file, no two records of the file share an id. When each of the
  \<open>MAX_SESSIONS + k\<close> calls starts a new session and its first event carries the id of
  that session, the ids being pairwise distinct, the file holds exactly
  \<open>MAX_SESSIONS\<close> records: those of the last \<open>MAX_SESSIONS\<close> calls, the most recent
  first. What a call does to the file it does by \<open>saveSession\<close>, which upserts the
  record of the current session.
\<close>

theorem session_index_bound:
  "distinct (map session_id (history_after e [] calls)) \<and>
   (list_all2 new_session_call sids calls' \<and> distinct sids \<and>
    length sids = MAX_SESSIONS + k \<longrightarrow>
      length (history_after e [] calls') = MAX_SESSIONS \<and>
      map session_id (history_after e [] calls') = rev (drop k sids) \<and>
      map session_id (history_after e [] calls') = take MAX_SESSIONS (rev sids)) \<and>
   (sessionId (sess q) = Some sid \<and> sid \<noteq> [] \<longrightarrow>
      history (saveSession e q) =
        upsert \<lparr> session_id = sid, saved_at = Date_now e (clock_reads q),
                 working_dir = WORKING_DIR e,
                 title = (case conversationTitle (sess q) of
                            Some t \<Rightarrow> if t \<noteq> [] then t else ''Sessione senza titolo''
                          | None \<Rightarrow> ''Sessione senza titolo'') \<rparr>
          (history q))"
proof -
  have unique: "distinct (map session_id (history_after e [] calls))"
    by (rule history_after_unique) simp
  have bound: "length (history_after e [] calls') = MAX_SESSIONS \<and>
      map session_id (history_after e [] calls') = rev (drop k sids) \<and>
      map session_id (history_after e [] calls') = take MAX_SESSIONS (rev sids)"
    if calls: "list_all2 new_session_call sids calls'" and sids: "distinct sids"
      and len: "length sids = MAX_SESSIONS + k"
  proof -
    from history_after_new_sessions [OF calls, of e "[]"] obtain rs where
      rs: "map session_id rs = sids" and "history_after e [] calls' = insert_all rs"
      unfolding insert_all_def by (elim exE conjE)
    moreover from rs sids have "insert_all rs = take MAX_SESSIONS (rev rs)"
      by (simp add: insert_all_fresh)
    ultimately have h: "history_after e [] calls' = take MAX_SESSIONS (rev rs)"
      by simp
    have ids: "map session_id (take MAX_SESSIONS (rev rs)) = take MAX_SESSIONS (rev sids)"
      unfolding rs [symmetric] by (simp add: take_map rev_map)
    from len have "take MAX_SESSIONS (rev sids) = rev (drop k sids)"
      by (simp add: take_rev)
    moreover from rs len have "length (take MAX_SESSIONS (rev rs)) = MAX_SESSIONS"
      by (metis length_map length_rev length_take le_add1 min.absorb2)
    ultimately show ?thesis
      using h ids by simp
  qed
  have save: "history (saveSession e q) =
      upsert \<lparr> session_id = sid, saved_at = Date_now e (clock_reads q),
               working_dir = WORKING_DIR e,
               title = (case conversationTitle (sess q) of
                          Some t \<Rightarrow> if t \<noteq> [] then t else ''Sessione senza titolo''
                        | None \<Rightarrow> ''Sessione senza titolo'') \<rparr>
        (history q)"
    if "sessionId (sess q) = Some sid \<and> sid \<noteq> []"
    using that by (simp add: saveSession_history)
  from unique bound save show ?thesis by blast
qed

theorem session_index_bound_witness:
  "map session_id (history_after demo_env []
      (map demo_new_call [''a'', ''b'', ''c'', ''d'', ''e'', ''f'', ''g''])) =
     [''g'', ''f'', ''e'', ''d'', ''c''] \<and>
   length (history_after demo_env []
      (map demo_new_call [''a'', ''b'', ''c'', ''d'', ''e'', ''f'', ''g''])) = 5 \<and>
   history (saveSession demo_env
     (start_state (new_session\<lparr>sessionId := Some ''a''\<rparr>) [])) =
     [demo_record ''a'' 1700000000000]"
proof -
  let ?sids = "[''a'', ''b'', ''c'', ''d'', ''e'', ''f'', ''g'']"
  let ?q = "start_state (new_session\<lparr>sessionId := Some ''a''\<rparr>) []"
  have calls: "list_all2 new_session_call ?sids (map demo_new_call ?sids) \<and> distinct ?sids \<and>
      length ?sids = MAX_SESSIONS + 2"
    by (simp add: new_session_call_def demo_new_call_def new_session_def MAX_SESSIONS_def)
  have current: "sessionId (sess ?q) = Some ''a'' \<and> ''a'' \<noteq> []"
    by (simp add: start_state_def)
  note all = session_index_bound [where e = demo_env and sids = ?sids
      and calls' = "map demo_new_call ?sids" and k = 2 and q = ?q and sid = "''a''"]
  from all [THEN conjunct2, THEN conjunct1, THEN mp, OF calls]
  have bound: "map session_id (history_after demo_env [] (map demo_new_call ?sids)) =
      [''g'', ''f'', ''e'', ''d'', ''c''] \<and>
      length (history_after demo_env [] (map demo_new_call ?sids)) = 5"
    by (simp add: MAX_SESSIONS_def)
  from all [THEN conjunct2, THEN conjunct2, THEN mp, OF current]
  have "history (saveSession demo_env ?q) = upsert (demo_record ''a'' 1700000000000) []"
    by (simp add: start_state_def new_session_def demo_env_def demo_record_def)
  then have saved: "history (saveSession demo_env ?q) = [demo_record ''a'' 1700000000000]"
    by (simp add: upsert_def MAX_SESSIONS_def)
  from bound saved show ?thesis by simp
qed
end
